theory Spec2Isabelle
  imports
    Complex_Main
    "HOL-Library.Signed_Division"
    "HOL-Library.Char_ord"
    "HOL-Library.List_Lexorder"
    "HOL-Library.Log_Nat"
    "HOL-Library.AList"
begin

section \<open>Machine integers\<close>

text \<open>
  Go's \<open>int64\<close> (and \<open>int\<close> on a 64-bit platform) is modelled as an \<open>int\<close> kept in the
  range \<open>-2^63 \<le> x < 2^63\<close>: every addition and subtraction of the source is followed by
  \<open>wrap64\<close>, the two's-complement wrap-around. Go's \<open>/\<close> and \<open>%\<close> truncate towards
  zero; they are \<open>sdiv\<close> and \<open>smod\<close>.
\<close>

definition wrap64 :: "int \<Rightarrow> int" where
  "wrap64 x = (x + 2 ^ 63) mod 2 ^ 64 - 2 ^ 63"

definition int64 :: "int \<Rightarrow> bool" where
  "int64 x \<longleftrightarrow> - (2 ^ 63) \<le> x \<and> x < 2 ^ 63"

section \<open>Errors\<close>

text \<open>
  The source reports every failure with \<open>fmt.Errorf\<close>; each distinct message is one
  constructor, named after the specification's error where it names one.
\<close>

datatype error =
    InvalidName                 \<comment> \<open>person name must start with a letter ...\<close>
  | DuplicateMember             \<comment> \<open>person(..) already exists in group(..)\<close>
  | EmptyNodeName               \<comment> \<open>node name cannot be empty\<close>
  | NodeExists                  \<comment> \<open>node(..) already exists in graph(..)\<close>
  | UnknownFromNode             \<comment> \<open>from-node(..) does not exist in the graph(..)\<close>
  | UnknownToNode               \<comment> \<open>to-node(..) does not exist in the graph(..)\<close>
  | NonPositiveTotal            \<comment> \<open>expense TotalMicroCents(..) cannot be 0 or negative\<close>
  | EmptyDescription            \<comment> \<open>expense description cannot be empty\<close>
  | InvalidSplitMethod          \<comment> \<open>split method must be one of equal|percentage|weights\<close>
  | InsufficientGroupSize       \<comment> \<open>group(..) must contain atleast 2 people to add an expense\<close>
  | UnknownPayer                \<comment> \<open>expense PaidBy person(..) must be in the group(..)\<close>
  | EmptySplitName              \<comment> \<open>split map contains empty name\<close>
  | DuplicateSplitName          \<comment> \<open>duplicate name in split map after normalization\<close>
  | UnknownPercentParticipant   \<comment> \<open>expense split_percentages validation failed, name(..) not in the group\<close>
  | UnknownWeightParticipant    \<comment> \<open>expense split_weights validation failed, name(..) not in the group\<close>
  | InsufficientParticipants    \<comment> \<open>length of the people must be atleast 2\<close>
  | PercentageSumMismatch       \<comment> \<open>percentages must sum to 100 (got ..)\<close>
  | NegativeWeight              \<comment> \<open>weights must be >= 0\<close>
  | NonPositiveWeightSum        \<comment> \<open>sum of weights must be > 0\<close>
  | GraphPeopleOutOfSync        \<comment> \<open>group(..) graph/people out of sync\<close>
  | PersonMissingFromGraph      \<comment> \<open>person(..) missing from graph(..)\<close>
  | ExtraGraphNode              \<comment> \<open>graph has extra node(..) in group(..)\<close>
  | DivideByZeroPanic           \<comment> \<open>run-time panic: integer divide by zero\<close>

section \<open>The split engine: equal shares\<close>

text \<open>
  A share map \<open>map[string]int64\<close> is a map \<open>string \<rightharpoonup> int\<close>. \<open>sum_shares\<close> adds up
  the entries of a share map; it is used to state the claims, not by the source.
\<close>

type_synonym shares = "string \<rightharpoonup> int"

definition sum_shares :: "shares \<Rightarrow> int" where
  "sum_shares m = (\<Sum>k\<in>dom m. the (m k))"

text \<open>
  The loop \<open>for i, p := range sorted\<close> of \<open>splitEqual\<close>: the entry at index \<open>i\<close> gets
  \<open>base\<close>, incremented when \<open>int64(i) < rem\<close>.
\<close>

fun splitEqual_loop :: "int \<Rightarrow> int \<Rightarrow> nat \<Rightarrow> string list \<Rightarrow> shares \<Rightarrow> shares" where
  "splitEqual_loop base rem i [] sh = sh"
| "splitEqual_loop base rem i (p # ps) sh =
     splitEqual_loop base rem (Suc i) ps
       (sh(p \<mapsto> (if int i < rem then wrap64 (base + 1) else base)))"

definition splitEqual :: "int \<Rightarrow> string list \<Rightarrow> error + shares" where
  "splitEqual totalMicroCents names =
     (let n = int (length names) in
      if n \<le> 1 then Inl InsufficientParticipants
      else
        let base = totalMicroCents sdiv n;
            rem = totalMicroCents smod n;
            sorted = sort names
        in Inr (splitEqual_loop base rem 0 sorted Map.empty))"


section \<open>Binary64 floating point\<close>

text \<open>
  Go's \<open>float64\<close> is IEEE 754 binary64. A value is a finite number, an infinity or a
  NaN; the two zeros are not told apart (the source never divides by a zero, the one
  place where they differ). Every operation computes the exact result and rounds it to
  the nearest representable number, ties to the even significand (\<open>round64\<close>): 53
  significant bits, the last place no finer than \<open>2^-1074\<close> (subnormal numbers), and
  an infinity when the rounded magnitude reaches \<open>2^1024\<close>.
\<close>

datatype float64 = Finite real | PosInf | NegInf | NaN

text \<open>\<open>binade x\<close> is the exponent \<open>e\<close> with \<open>2^e \<le> |x| < 2^(e+1)\<close>, for \<open>x \<noteq> 0\<close>.\<close>

definition binade :: "real \<Rightarrow> int" where
  "binade x =
     (let a = \<bar>x\<bar> in
      if 1 \<le> a then bitlen \<lfloor>a\<rfloor> - 1 else - bitlen (\<lceil>1 / a\<rceil> - 1))"

text \<open>The nearest integer, a tie going to the even one.\<close>

definition round_ne :: "real \<Rightarrow> int" where
  "round_ne x =
     (let f = \<lfloor>x\<rfloor>; d = x - of_int f in
      if d < 1 / 2 then f
      else if 1 / 2 < d then f + 1
      else if even f then f else f + 1)"

definition round64 :: "real \<Rightarrow> float64" where
  "round64 x =
     (if x = 0 then Finite 0
      else
        let e = max (binade x) (- 1022) - 52;
            r = of_int (round_ne (x / 2 powi e)) * 2 powi e
        in if 2 ^ 1024 \<le> \<bar>r\<bar> then (if 0 < x then PosInf else NegInf)
           else Finite r)"

fun fneg :: "float64 \<Rightarrow> float64" where
  "fneg (Finite x) = Finite (- x)"
| "fneg PosInf = NegInf"
| "fneg NegInf = PosInf"
| "fneg NaN = NaN"

text \<open>\<open>math.Abs\<close>.\<close>

fun fabs :: "float64 \<Rightarrow> float64" where
  "fabs (Finite x) = Finite \<bar>x\<bar>"
| "fabs PosInf = PosInf"
| "fabs NegInf = PosInf"
| "fabs NaN = NaN"

fun fadd :: "float64 \<Rightarrow> float64 \<Rightarrow> float64" where
  "fadd (Finite x) (Finite y) = round64 (x + y)"
| "fadd NaN b = NaN"
| "fadd a NaN = NaN"
| "fadd PosInf NegInf = NaN"
| "fadd NegInf PosInf = NaN"
| "fadd PosInf b = PosInf"
| "fadd NegInf b = NegInf"
| "fadd a PosInf = PosInf"
| "fadd a NegInf = NegInf"

definition fsub :: "float64 \<Rightarrow> float64 \<Rightarrow> float64" where
  "fsub a b = fadd a (fneg b)"

text \<open>The sign of a product or quotient with an infinite operand.\<close>

definition signedInf :: "bool \<Rightarrow> float64" where
  "signedInf positive = (if positive then PosInf else NegInf)"

fun fmul :: "float64 \<Rightarrow> float64 \<Rightarrow> float64" where
  "fmul (Finite x) (Finite y) = round64 (x * y)"
| "fmul NaN b = NaN"
| "fmul a NaN = NaN"
| "fmul (Finite x) PosInf = (if x = 0 then NaN else signedInf (0 < x))"
| "fmul (Finite x) NegInf = (if x = 0 then NaN else signedInf (x < 0))"
| "fmul PosInf (Finite y) = (if y = 0 then NaN else signedInf (0 < y))"
| "fmul NegInf (Finite y) = (if y = 0 then NaN else signedInf (y < 0))"
| "fmul PosInf PosInf = PosInf"
| "fmul NegInf NegInf = PosInf"
| "fmul PosInf NegInf = NegInf"
| "fmul NegInf PosInf = NegInf"

fun fdiv :: "float64 \<Rightarrow> float64 \<Rightarrow> float64" where
  "fdiv (Finite x) (Finite y) =
     (if y = 0 then (if x = 0 then NaN else signedInf (0 < x)) else round64 (x / y))"
| "fdiv NaN b = NaN"
| "fdiv a NaN = NaN"
| "fdiv (Finite x) PosInf = Finite 0"
| "fdiv (Finite x) NegInf = Finite 0"
| "fdiv PosInf (Finite y) = signedInf (0 \<le> y)"
| "fdiv NegInf (Finite y) = signedInf (y < 0)"
| "fdiv PosInf b = NaN"
| "fdiv NegInf b = NaN"

text \<open>The comparisons \<open><\<close>, \<open><=\<close>, \<open>></\<close> and \<open>==\<close>: false whenever an operand is a NaN.\<close>

fun flt :: "float64 \<Rightarrow> float64 \<Rightarrow> bool" where
  "flt NaN b = False"
| "flt a NaN = False"
| "flt (Finite x) (Finite y) = (x < y)"
| "flt PosInf b = False"
| "flt a PosInf = True"
| "flt NegInf NegInf = False"
| "flt NegInf b = True"
| "flt a NegInf = False"

definition fgt :: "float64 \<Rightarrow> float64 \<Rightarrow> bool" where
  "fgt a b = flt b a"

definition feq :: "float64 \<Rightarrow> float64 \<Rightarrow> bool" where
  "feq a b = (a \<noteq> NaN \<and> a = b)"

definition fle :: "float64 \<Rightarrow> float64 \<Rightarrow> bool" where
  "fle a b = (flt a b \<or> feq a b)"

text \<open>\<open>math.Floor\<close>.\<close>

fun ffloor :: "float64 \<Rightarrow> float64" where
  "ffloor (Finite x) = Finite (of_int \<lfloor>x\<rfloor>)"
| "ffloor a = a"

text \<open>The conversion \<open>float64(n)\<close> of an \<open>int64\<close>.\<close>

definition float64_of_int64 :: "int \<Rightarrow> float64" where
  "float64_of_int64 n = round64 (of_int n)"

text \<open>
  The conversion \<open>int64(f)\<close> discards the fraction. For a NaN, an infinity and a value
  outside the range of \<open>int64\<close> the Go specification leaves the result to the
  implementation; the value modelled is the one of amd64, \<open>-2^63\<close>.
\<close>

definition truncReal :: "real \<Rightarrow> int" where
  "truncReal x = (if 0 \<le> x then \<lfloor>x\<rfloor> else \<lceil>x\<rceil>)"

fun int64_of_float64 :: "float64 \<Rightarrow> int" where
  "int64_of_float64 (Finite x) = (if int64 (truncReal x) then truncReal x else - (2 ^ 63))"
| "int64_of_float64 a = - (2 ^ 63)"

section \<open>The split engine: percentages and weights\<close>

text \<open>
  A Go map is an association list with distinct keys, in the order in which \<open>range\<close>
  visits it: the order is arbitrary in Go, and floating-point sums depend on it.
\<close>

type_synonym splitMap = "(string \<times> float64) list"

record item =
  iname :: string
  iraw :: float64
  ibase :: int
  ifrac :: float64

text \<open>
  \<open>sort.Slice(items, less)\<close>, as an insertion sort. Where \<open>less\<close> is a strict total
  order on the elements (here: distinct names, no NaN), every sorting algorithm gives
  this result.
\<close>

fun insertBy :: "('a \<Rightarrow> 'a \<Rightarrow> bool) \<Rightarrow> 'a \<Rightarrow> 'a list \<Rightarrow> 'a list" where
  "insertBy lessFn a [] = [a]"
| "insertBy lessFn a (b # bs) =
     (if lessFn a b then a # b # bs else b # insertBy lessFn a bs)"

definition sortSlice :: "('a \<Rightarrow> 'a \<Rightarrow> bool) \<Rightarrow> 'a list \<Rightarrow> 'a list" where
  "sortSlice lessFn xs = foldr (insertBy lessFn) xs []"

definition itemLess :: "item \<Rightarrow> item \<Rightarrow> bool" where
  "itemLess a b =
     (if feq (ifrac a) (ifrac b) then iname a < iname b else fgt (ifrac a) (ifrac b))"

text \<open>\<open>shares[k]++\<close>: a missing key counts as zero.\<close>

definition incr :: "shares \<Rightarrow> string \<Rightarrow> shares" where
  "incr sh k = sh(k \<mapsto> wrap64 ((case sh k of None \<Rightarrow> 0 | Some v \<Rightarrow> v) + 1))"

text \<open>
  The tail shared by \<open>splitByPercent\<close> and \<open>splitByWeights\<close>: the leftover, the sort,
  the shares set to the floors, and the loop
  \<open>for i := int64(0); i < rem; i++ { shares[items[i%int64(len(items))].name]++ }\<close>,
  which panics on an empty \<open>items\<close>.
\<close>

definition usedOf :: "item list \<Rightarrow> int" where
  "usedOf items = fold (\<lambda>it used. wrap64 (used + ibase it)) items 0"

definition distribute :: "int \<Rightarrow> item list \<Rightarrow> error + shares" where
  "distribute totalMicroCents items =
     (let rem = wrap64 (totalMicroCents - usedOf items);
          sorted = sortSlice itemLess items;
          shares0 = fold (\<lambda>it sh. sh(iname it \<mapsto> ibase it)) sorted Map.empty
      in if 0 < rem \<and> sorted = [] then Inl DivideByZeroPanic
         else Inr (fold (\<lambda>i sh. incr sh (iname (sorted ! (i mod length sorted))))
                     [0..<nat rem] shares0))"

definition mkItem :: "string \<Rightarrow> float64 \<Rightarrow> item" where
  "mkItem nm raw =
     (let base = int64_of_float64 (ffloor raw) in
      \<lparr>iname = nm, iraw = raw, ibase = base, ifrac = fsub raw (float64_of_int64 base)\<rparr>)"

definition fsum :: "float64 list \<Rightarrow> float64" where
  "fsum vs = foldl fadd (Finite 0) vs"

definition percentItems :: "int \<Rightarrow> splitMap \<Rightarrow> item list" where
  "percentItems totalMicroCents perc =
     map (\<lambda>(nm, p). mkItem nm (fmul (fdiv p (Finite 100)) (float64_of_int64 totalMicroCents)))
       perc"

definition splitByPercent :: "int \<Rightarrow> splitMap \<Rightarrow> error + shares" where
  "splitByPercent totalMicroCents perc =
     (let sum = fsum (map snd perc) in
      if fgt (fabs (fsub sum (Finite 100))) (round64 (1 / 100)) then Inl PercentageSumMismatch
      else distribute totalMicroCents (percentItems totalMicroCents perc))"

text \<open>The first loop of \<open>splitByWeights\<close>: it returns at the first negative weight.\<close>

fun sumWeights :: "float64 \<Rightarrow> float64 list \<Rightarrow> error + float64" where
  "sumWeights sumW [] = Inr sumW"
| "sumWeights sumW (v # vs) =
     (if flt v (Finite 0) then Inl NegativeWeight else sumWeights (fadd sumW v) vs)"

definition weightItems :: "int \<Rightarrow> float64 \<Rightarrow> splitMap \<Rightarrow> item list" where
  "weightItems totalMicroCents sumW w =
     map (\<lambda>(nm, weight). mkItem nm (fmul (fdiv weight sumW) (float64_of_int64 totalMicroCents)))
       (filter (\<lambda>(nm, weight). \<not> feq weight (Finite 0)) w)"

definition splitByWeights :: "int \<Rightarrow> splitMap \<Rightarrow> error + shares" where
  "splitByWeights totalMicroCents w =
     (case sumWeights (Finite 0) (map snd w) of
        Inl err \<Rightarrow> Inl err
      | Inr sumW \<Rightarrow>
          if fle sumW (Finite 0) then Inl NonPositiveWeightSum
          else distribute totalMicroCents (weightItems totalMicroCents sumW w))"

section \<open>Names\<close>

text \<open>
  A Go string is its list of bytes, which \<open>strings.TrimSpace\<close> and \<open>strings.ToLower\<close>
  read as UTF-8. \<open>unicode.IsSpace\<close> holds of tab, line feed, vertical tab, form feed,
  carriage return and space, and of the characters U+0085, U+00A0, U+1680, U+2000 to
  U+200A, U+2028, U+2029, U+202F, U+205F and U+3000; \<open>space2\<close> and \<open>space3\<close> are their
  encodings in two and three bytes.
\<close>

definition asciiSpace :: "char \<Rightarrow> bool" where
  "asciiSpace c \<longleftrightarrow> c \<in> set [CHR 0x09, CHR 0x0A, CHR 0x0B, CHR 0x0C, CHR 0x0D, CHR '' '']"

definition space2 :: "char \<Rightarrow> char \<Rightarrow> bool" where
  "space2 c d \<longleftrightarrow> c = CHR 0xC2 \<and> (d = CHR 0x85 \<or> d = CHR 0xA0)"

definition space3 :: "char \<Rightarrow> char \<Rightarrow> char \<Rightarrow> bool" where
  "space3 c d e \<longleftrightarrow>
     (c = CHR 0xE1 \<and> d = CHR 0x9A \<and> e = CHR 0x80) \<or>
     (c = CHR 0xE2 \<and> d = CHR 0x80 \<and>
        ((CHR 0x80 \<le> e \<and> e \<le> CHR 0x8A) \<or> e = CHR 0xA8 \<or> e = CHR 0xA9 \<or> e = CHR 0xAF)) \<or>
     (c = CHR 0xE2 \<and> d = CHR 0x81 \<and> e = CHR 0x9F) \<or>
     (c = CHR 0xE3 \<and> d = CHR 0x80 \<and> e = CHR 0x80)"

text \<open>
  \<open>strings.TrimSpace\<close> removes the white space at the start and then at the end.
  \<open>trimLeft\<close> drops the leading white space; \<open>trimRightRev\<close> does the same on the
  reversed string, where the last byte comes first (an encoding of a white-space
  character is never the end of the encoding of another character).
\<close>

fun trimLeft :: "string \<Rightarrow> string" where
  "trimLeft (c # d # e # cs) =
     (if asciiSpace c then trimLeft (d # e # cs)
      else if space2 c d then trimLeft (e # cs)
      else if space3 c d e then trimLeft cs
      else c # d # e # cs)"
| "trimLeft [c, d] =
     (if asciiSpace c then trimLeft [d] else if space2 c d then [] else [c, d])"
| "trimLeft [c] = (if asciiSpace c then [] else [c])"
| "trimLeft [] = []"

fun trimRightRev :: "string \<Rightarrow> string" where
  "trimRightRev (c # d # e # cs) =
     (if asciiSpace c then trimRightRev (d # e # cs)
      else if space2 d c then trimRightRev (e # cs)
      else if space3 e d c then trimRightRev cs
      else c # d # e # cs)"
| "trimRightRev [c, d] =
     (if asciiSpace c then trimRightRev [d] else if space2 d c then [] else [c, d])"
| "trimRightRev [c] = (if asciiSpace c then [] else [c])"
| "trimRightRev [] = []"

definition TrimSpace :: "string \<Rightarrow> string" where
  "TrimSpace s = rev (trimRightRev (rev (trimLeft s)))"

text \<open>
  \<open>utf8.DecodeRuneInString\<close>: the character at the start of a string and the number of
  bytes of its encoding; a byte that starts no valid encoding is read as \<open>RuneError\<close>
  (U+FFFD) of width one. \<open>utf8.AppendRune\<close> writes \<open>RuneError\<close> for a surrogate and for a
  value above U+10FFFF.
\<close>

definition cont :: "char \<Rightarrow> bool" where
  "cont c \<longleftrightarrow> CHR 0x80 \<le> c \<and> c \<le> CHR 0xBF"

definition RuneError :: nat where
  "RuneError = 0xFFFD"

fun decodeRune :: "string \<Rightarrow> nat \<times> nat" where
  "decodeRune [] = (RuneError, 0)"
| "decodeRune (c # cs) =
     (let b0 = (of_char c :: nat) in
      if b0 < 0x80 then (b0, 1)
      else if 0xC2 \<le> b0 \<and> b0 \<le> 0xDF then
        (case cs of
           d # _ \<Rightarrow> if cont d then ((b0 mod 0x20) * 0x40 + of_char d mod 0x40, 2) else (RuneError, 1)
         | _ \<Rightarrow> (RuneError, 1))
      else if 0xE0 \<le> b0 \<and> b0 \<le> 0xEF then
        (case cs of
           d # e # _ \<Rightarrow>
             if (if b0 = 0xE0 then CHR 0xA0 \<le> d \<and> d \<le> CHR 0xBF
                 else if b0 = 0xED then CHR 0x80 \<le> d \<and> d \<le> CHR 0x9F
                 else cont d) \<and> cont e
             then ((b0 mod 0x10) * 0x1000 + (of_char d mod 0x40) * 0x40 + of_char e mod 0x40, 3)
             else (RuneError, 1)
         | _ \<Rightarrow> (RuneError, 1))
      else if 0xF0 \<le> b0 \<and> b0 \<le> 0xF4 then
        (case cs of
           d # e # f # _ \<Rightarrow>
             if (if b0 = 0xF0 then CHR 0x90 \<le> d \<and> d \<le> CHR 0xBF
                 else if b0 = 0xF4 then CHR 0x80 \<le> d \<and> d \<le> CHR 0x8F
                 else cont d) \<and> cont e \<and> cont f
             then ((b0 mod 0x08) * 0x40000 + (of_char d mod 0x40) * 0x1000 +
                   (of_char e mod 0x40) * 0x40 + of_char f mod 0x40, 4)
             else (RuneError, 1)
         | _ \<Rightarrow> (RuneError, 1))
      else (RuneError, 1))"

definition encodeRune :: "nat \<Rightarrow> string" where
  "encodeRune r =
     (if r < 0x80 then [char_of r]
      else if r < 0x800 then [char_of (0xC0 + r div 0x40), char_of (0x80 + r mod 0x40)]
      else if 0x10FFFF < r \<or> (0xD800 \<le> r \<and> r \<le> 0xDFFF) then [CHR 0xEF, CHR 0xBF, CHR 0xBD]
      else if r < 0x10000 then
        [char_of (0xE0 + r div 0x1000), char_of (0x80 + r div 0x40 mod 0x40), char_of (0x80 + r mod 0x40)]
      else
        [char_of (0xF0 + r div 0x40000), char_of (0x80 + r div 0x1000 mod 0x40),
         char_of (0x80 + r div 0x40 mod 0x40), char_of (0x80 + r mod 0x40)])"

text \<open>\<open>strings.Map\<close>: every character of the string, read with \<open>decodeRune\<close>, is replaced
  by the encoding of its image.\<close>

fun mapRunes :: "(nat \<Rightarrow> nat) \<Rightarrow> string \<Rightarrow> string" where
  "mapRunes f [] = []"
| "mapRunes f (c # cs) =
     encodeRune (f (fst (decodeRune (c # cs)))) @
     mapRunes f (drop (snd (decodeRune (c # cs)) - 1) cs)"

text \<open>
  \<open>strings.ToLower\<close> maps the bytes \<open>A\<close> to \<open>Z\<close> of an ASCII string, and applies
  \<open>unicode.ToLower\<close> to every character of any other string. The case tables of the Go
  library for the characters from U+0080 on are not part of the repository: they are
  the parameter \<open>unicodeLower\<close> of \<open>ToLower\<close> and of every function that normalises a
  name, and every property below holds for every such table.
\<close>

definition toLowerChar :: "char \<Rightarrow> char" where
  "toLowerChar c =
     (case map_of (zip ''ABCDEFGHIJKLMNOPQRSTUVWXYZ'' ''abcdefghijklmnopqrstuvwxyz'') c of
        None \<Rightarrow> c
      | Some d \<Rightarrow> d)"

definition isASCII :: "string \<Rightarrow> bool" where
  "isASCII s = list_all (\<lambda>c. c < CHR 0x80) s"

definition lowerRune :: "(nat \<Rightarrow> nat) \<Rightarrow> nat \<Rightarrow> nat" where
  "lowerRune unicodeLower r =
     (if r < 0x80 then (if 0x41 \<le> r \<and> r \<le> 0x5A then r + 0x20 else r) else unicodeLower r)"

definition ToLower :: "(nat \<Rightarrow> nat) \<Rightarrow> string \<Rightarrow> string" where
  "ToLower unicodeLower s =
     (if isASCII s then map toLowerChar s else mapRunes (lowerRune unicodeLower) s)"

definition normalizeName :: "(nat \<Rightarrow> nat) \<Rightarrow> string \<Rightarrow> string" where
  "normalizeName unicodeLower name = ToLower unicodeLower (TrimSpace name)"

definition isLetter :: "char \<Rightarrow> bool" where
  "isLetter c \<longleftrightarrow> (CHR ''A'' \<le> c \<and> c \<le> CHR ''Z'') \<or> (CHR ''a'' \<le> c \<and> c \<le> CHR ''z'')"

text \<open>\<open>groupNamePattern\<close>, \<open>^[A-Za-z][A-Za-z_-]{0,31}$\<close>, and \<open>personNamePattern\<close>,
  \<open>^[A-Za-z][A-Za-z_ -]{0,31}$\<close>.\<close>

definition groupNamePattern :: "string \<Rightarrow> bool" where
  "groupNamePattern s \<longleftrightarrow>
     (case s of
        [] \<Rightarrow> False
      | c # cs \<Rightarrow> isLetter c \<and> length cs \<le> 31 \<and>
          list_all (\<lambda>d. isLetter d \<or> d = CHR ''_'' \<or> d = CHR ''-'') cs)"

definition personNamePattern :: "string \<Rightarrow> bool" where
  "personNamePattern s \<longleftrightarrow>
     (case s of
        [] \<Rightarrow> False
      | c # cs \<Rightarrow> isLetter c \<and> length cs \<le> 31 \<and>
          list_all (\<lambda>d. isLetter d \<or> d = CHR ''_'' \<or> d = CHR '' '' \<or> d = CHR ''-'') cs)"

section \<open>The debt graph\<close>

text \<open>
  The maps of the source are association lists with distinct keys, read with \<open>map_of\<close>
  and written with \<open>AList.update\<close>; \<open>len\<close> is the length of the list. The time stamps
  (\<open>CreatedAt\<close>) and the mutex are left out: no function modelled here reads a time
  stamp, and each function runs under the group's lock from start to end.
\<close>

record EdgeMetadata =
  AmountInMicroCents :: int
  ExpenseID :: int

record edge =
  To :: string
  Metadata :: EdgeMetadata

record graph =
  graphName :: string
  nodes :: "(string \<times> edge list) list"

definition newGraph :: "string \<Rightarrow> graph" where
  "newGraph name = \<lparr>graphName = name, nodes = []\<rparr>"

definition addNode :: "graph \<Rightarrow> string \<Rightarrow> error + graph" where
  "addNode g node0 =
     (let node = TrimSpace node0 in
      if node = [] then Inl EmptyNodeName
      else if map_of (nodes g) node \<noteq> None then Inl NodeExists
      else Inr (g\<lparr>nodes := AList.update node [] (nodes g)\<rparr>))"

definition addEdge :: "graph \<Rightarrow> string \<Rightarrow> string \<Rightarrow> EdgeMetadata \<Rightarrow> error + graph" where
  "addEdge g fromKey toKey metadata =
     (case map_of (nodes g) fromKey of
        None \<Rightarrow> Inl UnknownFromNode
      | Some edgeSlice \<Rightarrow>
          (case map_of (nodes g) toKey of
             None \<Rightarrow> Inl UnknownToNode
           | Some _ \<Rightarrow>
               Inr (g\<lparr>nodes :=
                 AList.update fromKey (edgeSlice @ [\<lparr>To = toKey, Metadata = metadata\<rparr>])
                   (nodes g)\<rparr>)))"

section \<open>Groups and expenses\<close>

record Person =
  Name :: string

record Expense =
  ID :: int
  TotalMicroCents :: int
  PaidBy :: string
  Description :: string
  SplitMethod :: string
  SplitPercentages :: splitMap
  SplitWeights :: splitMap

record Group =
  groupName :: string
  ggraph :: graph
  people :: "(string \<times> Person) list"
  expenses :: "(int \<times> Expense) list"
  expenseIdCounter :: int

definition NewGroup :: "string \<Rightarrow> error + Group" where
  "NewGroup name0 =
     (let name = TrimSpace name0 in
      if \<not> groupNamePattern name then Inl InvalidName
      else Inr \<lparr>groupName = name, ggraph = newGraph name, people = [], expenses = [],
                expenseIdCounter = 0\<rparr>)"

definition AddPerson :: "(nat \<Rightarrow> nat) \<Rightarrow> Group \<Rightarrow> string \<Rightarrow> error + Group" where
  "AddPerson unicodeLower g name =
     (let displayName = TrimSpace name in
      if \<not> personNamePattern displayName then Inl InvalidName
      else
        let key = normalizeName unicodeLower displayName in
        if map_of (people g) key \<noteq> None then Inl DuplicateMember
        else
          (case addNode (ggraph g) key of
             Inl err \<Rightarrow> Inl err
           | Inr gr \<Rightarrow>
               Inr (g\<lparr>ggraph := gr,
                      people := AList.update key \<lparr>Name = displayName\<rparr> (people g)\<rparr>)))"

definition validateSplitMethod :: "string \<Rightarrow> error option" where
  "validateSplitMethod splitMethod =
     (if splitMethod \<in> set [''equal'', ''percentage'', ''weights''] then None
      else Some InvalidSplitMethod)"

text \<open>\<open>normalizeSplitMap\<close>: \<open>out\<close> collects the normalised entries.\<close>

fun normalizeSplitMap_loop :: "(nat \<Rightarrow> nat) \<Rightarrow> splitMap \<Rightarrow> splitMap \<Rightarrow> error + splitMap" where
  "normalizeSplitMap_loop unicodeLower [] out = Inr out"
| "normalizeSplitMap_loop unicodeLower ((name, v) # rest) out =
     (let key = normalizeName unicodeLower name in
      if key = [] then Inl EmptySplitName
      else if map_of out key \<noteq> None then Inl DuplicateSplitName
      else normalizeSplitMap_loop unicodeLower rest (AList.update key v out))"

definition normalizeSplitMap :: "(nat \<Rightarrow> nat) \<Rightarrow> splitMap \<Rightarrow> error + splitMap" where
  "normalizeSplitMap unicodeLower input =
     (if length input = 0 then Inr [] else normalizeSplitMap_loop unicodeLower input [])"

text \<open>The first name of a split map that is not a member, if there is one.\<close>

definition allMembers :: "(string \<times> Person) list \<Rightarrow> splitMap \<Rightarrow> bool" where
  "allMembers ps m = list_all (\<lambda>(name, v). map_of ps name \<noteq> None) m"

text \<open>The consistency check of graph and members that precedes every mutation.\<close>

definition checkSync :: "Group \<Rightarrow> error option" where
  "checkSync g =
     (if length (people g) \<noteq> length (nodes (ggraph g)) then Some GraphPeopleOutOfSync
      else if \<not> list_all (\<lambda>(name, p). map_of (nodes (ggraph g)) name \<noteq> None) (people g)
        then Some PersonMissingFromGraph
      else if \<not> list_all (\<lambda>(name, es). map_of (people g) name \<noteq> None) (nodes (ggraph g))
        then Some ExtraGraphNode
      else None)"

text \<open>
  The loop \<open>for fromKey, from := range g.people\<close> that adds the edges. It returns in
  the middle when \<open>addEdge\<close> fails, with the edges added so far.
\<close>

fun addEdges :: "graph \<Rightarrow> string list \<Rightarrow> string \<Rightarrow> shares \<Rightarrow> int \<Rightarrow> error option \<times> graph" where
  "addEdges gr [] paidByKey sh eid = (None, gr)"
| "addEdges gr (fromKey # rest) paidByKey sh eid =
     (if fromKey = paidByKey then addEdges gr rest paidByKey sh eid
      else
        (case sh fromKey of
           None \<Rightarrow> addEdges gr rest paidByKey sh eid
         | Some owed \<Rightarrow>
             (case addEdge gr fromKey paidByKey \<lparr>AmountInMicroCents = owed, ExpenseID = eid\<rparr> of
                Inl err \<Rightarrow> (Some err, gr)
              | Inr gr' \<Rightarrow> addEdges gr' rest paidByKey sh eid)))"

text \<open>The \<open>switch e.SplitMethod\<close>; without a matching case \<open>shares\<close> stays \<open>nil\<close>.\<close>

definition computeShares :: "string \<Rightarrow> int \<Rightarrow> string list \<Rightarrow> splitMap \<Rightarrow> splitMap \<Rightarrow> error + shares"
  where
  "computeShares splitMethod totalMicroCents names percentages weights =
     (if splitMethod = ''equal'' then splitEqual totalMicroCents names
      else if splitMethod = ''percentage'' then splitByPercent totalMicroCents percentages
      else if splitMethod = ''weights'' then splitByWeights totalMicroCents weights
      else Inr Map.empty)"

text \<open>
  \<open>AddExpense\<close> returns its error (or \<open>None\<close> for \<open>nil\<close>) and the group as the call
  leaves it, so that a mutation before an error return would show.
\<close>

definition AddExpense :: "(nat \<Rightarrow> nat) \<Rightarrow> Group \<Rightarrow> Expense \<Rightarrow> error option \<times> Group" where
  "AddExpense unicodeLower g e =
     (if TotalMicroCents e \<le> 0 then (Some NonPositiveTotal, g)
      else
        let description = TrimSpace (Description e) in
        if description = [] then (Some EmptyDescription, g)
        else
          (case validateSplitMethod (SplitMethod e) of
             Some err \<Rightarrow> (Some err, g)
           | None \<Rightarrow>
               if length (people g) \<le> 1 then (Some InsufficientGroupSize, g)
               else
                 let paidByKey = normalizeName unicodeLower (PaidBy e) in
                 (case map_of (people g) paidByKey of
                    None \<Rightarrow> (Some UnknownPayer, g)
                  | Some to \<Rightarrow>
                      (case normalizeSplitMap unicodeLower (SplitPercentages e) of
                         Inl err \<Rightarrow> (Some err, g)
                       | Inr normalizedPercentages \<Rightarrow>
                           if \<not> allMembers (people g) normalizedPercentages
                           then (Some UnknownPercentParticipant, g)
                           else
                             (case normalizeSplitMap unicodeLower (SplitWeights e) of
                                Inl err \<Rightarrow> (Some err, g)
                              | Inr normalizedWeights \<Rightarrow>
                                  if \<not> allMembers (people g) normalizedWeights
                                  then (Some UnknownWeightParticipant, g)
                                  else
                                    let names = map fst (people g) in
                                    (case computeShares (SplitMethod e) (TotalMicroCents e)
                                            names normalizedPercentages normalizedWeights of
                                       Inl err \<Rightarrow> (Some err, g)
                                     | Inr sh \<Rightarrow>
                                         (case checkSync g of
                                            Some err \<Rightarrow> (Some err, g)
                                          | None \<Rightarrow>
                                              let eid = wrap64 (expenseIdCounter g + 1);
                                                  e' = e\<lparr>ID := eid,
                                                         Description := description,
                                                         PaidBy := Name to,
                                                         SplitPercentages := normalizedPercentages,
                                                         SplitWeights := normalizedWeights\<rparr>;
                                                  g1 = g\<lparr>expenseIdCounter := eid,
                                                         expenses := AList.update eid e' (expenses g)\<rparr>;
                                                  (res, gr) = addEdges (ggraph g1) names paidByKey sh eid
                                              in (res, g1\<lparr>ggraph := gr\<rparr>))))))))"

section \<open>Settlements\<close>

text \<open>\<open>g.graph.nodes[k]\<close>: the edges of a node, none for a key that is no node.\<close>

definition edgesOf :: "graph \<Rightarrow> string \<Rightarrow> edge list" where
  "edgesOf gr k = (case map_of (nodes gr) k of None \<Rightarrow> [] | Some es \<Rightarrow> es)"

text \<open>One summing loop of \<open>getMoneyTobePaid\<close>: the amounts of the edges that lead to
  \<open>toKey\<close>.\<close>

definition sumTo :: "edge list \<Rightarrow> string \<Rightarrow> int" where
  "sumTo es toKey =
     fold (\<lambda>e s. if To e = toKey then wrap64 (s + AmountInMicroCents (Metadata e)) else s) es 0"

text \<open>The difference \<open>sum - sum2\<close> of \<open>getMoneyTobePaid\<close>, in micro-cents.\<close>

definition netMicroCents :: "Group \<Rightarrow> string \<Rightarrow> string \<Rightarrow> int" where
  "netMicroCents g fromKey toKey =
     wrap64 (sumTo (edgesOf (ggraph g) fromKey) toKey - sumTo (edgesOf (ggraph g) toKey) fromKey)"

definition getMoneyTobePaid :: "Group \<Rightarrow> string \<Rightarrow> string \<Rightarrow> float64" where
  "getMoneyTobePaid g fromKey toKey =
     (let cents = fdiv (float64_of_int64 (netMicroCents g fromKey toKey)) (Finite 1000);
          cents' = (if flt cents (Finite 1) then Finite 0 else cents)
      in fdiv cents' (Finite 100))"

definition displayName :: "Group \<Rightarrow> string \<Rightarrow> string" where
  "displayName g key = (case map_of (people g) key of Some p \<Rightarrow> Name p | None \<Rightarrow> key)"

text \<open>
  The two nested loops of \<open>GetExpenseDetails\<close>: the ordered pairs for which an entry is
  written, with the amount, in the order of the writes.
\<close>

definition settlementEntries :: "Group \<Rightarrow> ((string \<times> string) \<times> float64) list" where
  "settlementEntries g =
     (let ps = map fst (nodes (ggraph g)) in
      concat (map (\<lambda>fromKey.
        concat (map (\<lambda>toKey.
          if fromKey = toKey then []
          else
            let amount = getMoneyTobePaid g fromKey toKey in
            if fgt amount (Finite 0) then [((fromKey, toKey), amount)] else []) ps)) ps))"

text \<open>The key \<open>fmt.Sprintf("%s to pay %s", ...)\<close> of an entry.\<close>

definition settlementKey :: "Group \<Rightarrow> string \<Rightarrow> string \<Rightarrow> string" where
  "settlementKey g fromKey toKey = displayName g fromKey @ '' to pay '' @ displayName g toKey"

definition GetExpenseDetails :: "Group \<Rightarrow> (string \<times> float64) list" where
  "GetExpenseDetails g =
     fold (\<lambda>((fromKey, toKey), amount) result.
             AList.update (settlementKey g fromKey toKey) amount result)
       (settlementEntries g) []"

section \<open>The graph export\<close>

definition digitChar :: "nat \<Rightarrow> char" where
  "digitChar d = ''0123456789abcdef'' ! d"

fun showNat :: "nat \<Rightarrow> string" where
  "showNat n = (if n < 10 then [digitChar n] else showNat (n div 10) @ [digitChar (n mod 10)])"

declare showNat.simps [simp del]

text \<open>
  The verb \<open>%.2f\<close>: the exact value of the argument, rounded to two decimals (a tie
  to the even digit).
\<close>

fun formatF2 :: "float64 \<Rightarrow> string" where
  "formatF2 (Finite x) =
     (let n = nat (round_ne (\<bar>x\<bar> * 100)) in
      (if x < 0 then ''-'' else []) @ showNat (n div 100) @ ''.'' @
      [digitChar (n mod 100 div 10), digitChar (n mod 10)])"
| "formatF2 PosInf = ''+Inf''"
| "formatF2 NegInf = ''-Inf''"
| "formatF2 NaN = ''NaN''"

definition formatMicroCentsAsDollars :: "int \<Rightarrow> string" where
  "formatMicroCentsAsDollars micro =
     (let roundedCents = wrap64 (micro + 500) sdiv 1000 in
      ''$'' @ formatF2 (fdiv (float64_of_int64 roundedCents) (Finite 100)))"

text \<open>
  The verb \<open>%q\<close> (\<open>strconv.Quote\<close>) on ASCII: the quote and the backslash are escaped,
  the control characters are written \<open>\a \b \t \n \v \f \r\<close> or \<open>\xNN\<close>. Bytes from
  \<open>0x80\<close> on are copied (Go escapes those that are not printable UTF-8); group and
  member names hold none.
\<close>

definition quoteChar :: "char \<Rightarrow> string" where
  "quoteChar c =
     (case map_of
        [(CHR 0x22, [CHR 0x5C, CHR 0x22]), (CHR 0x5C, [CHR 0x5C, CHR 0x5C]),
         (CHR 0x07, [CHR 0x5C, CHR ''a'']), (CHR 0x08, [CHR 0x5C, CHR ''b'']),
         (CHR 0x0C, [CHR 0x5C, CHR ''f'']), (CHR 0x0A, [CHR 0x5C, CHR ''n'']),
         (CHR 0x0D, [CHR 0x5C, CHR ''r'']), (CHR 0x09, [CHR 0x5C, CHR ''t'']),
         (CHR 0x0B, [CHR 0x5C, CHR ''v''])] c of
        Some esc \<Rightarrow> esc
      | None \<Rightarrow>
          if c < CHR 0x20 \<or> c = CHR 0x7F
          then [CHR 0x5C, CHR ''x'', digitChar (of_char c div 16), digitChar (of_char c mod 16)]
          else [c])"

definition quote :: "string \<Rightarrow> string" where
  "quote s = [CHR 0x22] @ concat (map quoteChar s) @ [CHR 0x22]"

text \<open>\<open>edgeSums[edgeKey{from, to}] += amount\<close>.\<close>

type_synonym edgeKey = "string \<times> string"

definition addToSum :: "(edgeKey \<times> int) list \<Rightarrow> edgeKey \<Rightarrow> int \<Rightarrow> (edgeKey \<times> int) list" where
  "addToSum edgeSums k amount =
     AList.update k (wrap64 ((case map_of edgeSums k of None \<Rightarrow> 0 | Some v \<Rightarrow> v) + amount))
       edgeSums"

definition edgeSumsOf :: "graph \<Rightarrow> (edgeKey \<times> int) list" where
  "edgeSumsOf gr =
     fold (\<lambda>(fromKey, edges) edgeSums.
             fold (\<lambda>e acc. addToSum acc (fromKey, To e) (AmountInMicroCents (Metadata e)))
               edges edgeSums)
       (nodes gr) []"

definition edgeKeyLess :: "edgeKey \<Rightarrow> edgeKey \<Rightarrow> bool" where
  "edgeKeyLess a b = (if fst a = fst b then snd a < snd b else fst a < fst b)"

definition nodeDecl :: "Group \<Rightarrow> string \<Rightarrow> string" where
  "nodeDecl g key =
     ''  '' @ quote key @ '' [label='' @ quote (displayName g key) @ ''];'' @ [CHR 0x0A]"

definition edgeDecl :: "edgeKey \<Rightarrow> int \<Rightarrow> string" where
  "edgeDecl k micro =
     ''  '' @ quote (fst k) @ '' -> '' @ quote (snd k) @ '' [label='' @
     quote (formatMicroCentsAsDollars micro) @ ''];'' @ [CHR 0x0A]"

text \<open>The sorted member keys and the sorted edge keys with their sums, as
  \<open>GetGraphDOT\<close> computes them before it prints.\<close>

definition dotNames :: "Group \<Rightarrow> string list" where
  "dotNames g = sort (map fst (people g))"

definition dotEdges :: "Group \<Rightarrow> (edgeKey \<times> int) list" where
  "dotEdges g =
     (let edgeSums = edgeSumsOf (ggraph g);
          keys = sortSlice edgeKeyLess (map fst edgeSums)
      in map (\<lambda>k. (k, case map_of edgeSums k of None \<Rightarrow> 0 | Some v \<Rightarrow> v)) keys)"

definition GetGraphDOT :: "Group \<Rightarrow> string" where
  "GetGraphDOT g =
     ''digraph '' @ quote (groupName g) @ '' {'' @ [CHR 0x0A] @
     concat (map (nodeDecl g) (dotNames g)) @
     concat (map (\<lambda>(k, micro). if micro \<le> 0 then [] else edgeDecl k micro) (dotEdges g)) @
     ''}'' @ [CHR 0x0A]"

section \<open>Notions used to state and prove the properties\<close>

text \<open>
  None of the following is part of the program. \<open>rnd x\<close> is the number that \<open>round64\<close>
  rounds \<open>x\<close> to, before the test for overflow, and \<open>lastPlace x\<close> the exponent of its
  last binary place.
\<close>

definition rnd :: "real \<Rightarrow> real" where
  "rnd x = (if x = 0 then 0
            else of_int (round_ne (x / 2 powi (max (binade x) (- 1022) - 52))) *
                 2 powi (max (binade x) (- 1022) - 52))"

definition lastPlace :: "real \<Rightarrow> int" where
  "lastPlace x = max (binade x) (- 1022) - 52"

text \<open>The conversion of the net amount to dollars at the end of \<open>getMoneyTobePaid\<close>.\<close>

definition toDollars :: "int \<Rightarrow> float64" where
  "toDollars d = (let cents = fdiv (float64_of_int64 d) (Finite 1000);
          cents' = (if flt cents (Finite 1) then Finite 0 else cents)
      in fdiv cents' (Finite 100))"

text \<open>\<open>owed gr a b\<close> is the sum of the amounts of all edges from \<open>a\<close> to \<open>b\<close>, as an
  unbounded integer.\<close>

definition owed :: "graph \<Rightarrow> string \<Rightarrow> string \<Rightarrow> int" where
  "owed gr a b = (\<Sum>e\<leftarrow>filter (\<lambda>e. To e = b) (edgesOf gr a). AmountInMicroCents (Metadata e))"

text \<open>A group state with edges in both directions, for the witnesses.\<close>

definition ledgerState :: Group where
  "ledgerState =
     \<lparr>groupName = ''trip'',
      ggraph = \<lparr>graphName = ''trip'',
        nodes = [(''alice'', [\<lparr>To = ''bob'', Metadata = \<lparr>AmountInMicroCents = 5000, ExpenseID = 1\<rparr>\<rparr>,
                             \<lparr>To = ''bob'', Metadata = \<lparr>AmountInMicroCents = 300, ExpenseID = 3\<rparr>\<rparr>]),
                 (''bob'', [\<lparr>To = ''alice'', Metadata = \<lparr>AmountInMicroCents = 2000, ExpenseID = 2\<rparr>\<rparr>])]\<rparr>,
      people = [(''alice'', \<lparr>Name = ''Alice''\<rparr>), (''bob'', \<lparr>Name = ''Bob''\<rparr>)],
      expenses = [], expenseIdCounter = 3\<rparr>"

text \<open>The group of the scenarios: "trip" with the members Alice, Bob and Charlie, and
  the expense of 10,000,000 micro-cents paid by Alice and split equally.\<close>

definition tripState :: Group where
  "tripState =
     \<lparr>groupName = ''trip'',
      ggraph = \<lparr>graphName = ''trip'', nodes = [(''alice'', []), (''bob'', []), (''charlie'', [])]\<rparr>,
      people = [(''alice'', \<lparr>Name = ''Alice''\<rparr>), (''bob'', \<lparr>Name = ''Bob''\<rparr>),
                (''charlie'', \<lparr>Name = ''Charlie''\<rparr>)],
      expenses = [], expenseIdCounter = 0\<rparr>"

definition tripExpense :: Expense where
  "tripExpense = \<lparr>ID = 0, TotalMicroCents = 10000000, PaidBy = ''Alice'', Description = ''show tickets'',
     SplitMethod = ''equal'', SplitPercentages = [], SplitWeights = []\<rparr>"

text \<open>All edges of a graph, their number, and the sum of the amounts of the edges that
  carry a given expense id.\<close>

definition allEdges :: "graph \<Rightarrow> edge list" where
  "allEdges gr = concat (map snd (nodes gr))"

definition edgeCount :: "Group \<Rightarrow> nat" where
  "edgeCount g = length (allEdges (ggraph g))"

definition expenseEdgeTotal :: "Group \<Rightarrow> int \<Rightarrow> int" where
  "expenseEdgeTotal g eid =
     (\<Sum>e\<leftarrow>filter (\<lambda>e. ExpenseID (Metadata e) = eid) (allEdges (ggraph g)).
        AmountInMicroCents (Metadata e))"

text \<open>The shares that \<open>AddExpense\<close> computes for an expense: the split of the total over
  the member keys with the normalised split maps.\<close>

definition expenseShares :: "(nat \<Rightarrow> nat) \<Rightarrow> Group \<Rightarrow> Expense \<Rightarrow> error + shares" where
  "expenseShares unicodeLower g e =
     (case normalizeSplitMap unicodeLower (SplitPercentages e) of
        Inl err \<Rightarrow> Inl err
      | Inr normalizedPercentages \<Rightarrow>
          (case normalizeSplitMap unicodeLower (SplitWeights e) of
             Inl err \<Rightarrow> Inl err
           | Inr normalizedWeights \<Rightarrow>
               computeShares (SplitMethod e) (TotalMicroCents e) (map fst (people g))
                 normalizedPercentages normalizedWeights))"

text \<open>The members other than the payer that have a share: the edges of one expense.\<close>

definition owers :: "Group \<Rightarrow> string \<Rightarrow> shares \<Rightarrow> string list" where
  "owers g paidByKey sh = filter (\<lambda>k. k \<noteq> paidByKey \<and> sh k \<noteq> None) (map fst (people g))"

text \<open>A case table that maps no character, for the closed examples: the names in them
  are ASCII, for which the table is not consulted.\<close>

definition identityTable :: "nat \<Rightarrow> nat" where
  "identityTable r = r"

text \<open>The scenario group is built with \<open>NewGroup\<close> and \<open>AddPerson\<close>; \<open>bindE\<close> passes a
  result on, or the first error.\<close>

definition bindE :: "error + 'a \<Rightarrow> ('a \<Rightarrow> error + 'b) \<Rightarrow> error + 'b" where
  "bindE r f = (case r of Inl err \<Rightarrow> Inl err | Inr v \<Rightarrow> f v)"

definition tripGroup :: "(nat \<Rightarrow> nat) \<Rightarrow> error + Group" where
  "tripGroup unicodeLower =
     bindE (bindE (bindE (NewGroup ''trip'') (\<lambda>g. AddPerson unicodeLower g ''Alice''))
       (\<lambda>g. AddPerson unicodeLower g ''Bob'')) (\<lambda>g. AddPerson unicodeLower g ''Charlie'')"

text \<open>The test \<open>math.Abs(sum-100.0) > 0.01\<close> of \<open>splitByPercent\<close>.\<close>

definition percentSumMismatch :: "splitMap \<Rightarrow> bool" where
  "percentSumMismatch perc =
     fgt (fabs (fsub (fsum (map snd perc)) (Finite 100))) (round64 (1 / 100))"

text \<open>The inputs of the counterexamples: 50.0078125 is \<open>6401 / 128\<close>.\<close>

definition overPercent :: splitMap where
  "overPercent = [(''alice'', Finite (6401 / 128)), (''bob'', Finite 50)]"

definition negPercent :: splitMap where
  "negPercent = [(''alice'', Finite 150), (''bob'', Finite (- 50))]"

text \<open>A value of the type \<open>float64\<close>: a representable number, an infinity or a NaN.\<close>

definition isFloat64 :: "float64 \<Rightarrow> bool" where
  "isFloat64 f = (case f of Finite r \<Rightarrow> round64 r = Finite r | _ \<Rightarrow> True)"

text \<open>A weight that is a representable number and not negative.\<close>

definition validWeight :: "float64 \<Rightarrow> bool" where
  "validWeight v = (case v of Finite r \<Rightarrow> 0 \<le> r \<and> round64 r = Finite r | _ \<Rightarrow> False)"

text \<open>A running sum of valid weights is either infinite or a representable number that
  is at least every weight added.\<close>

definition sumAtLeast :: "float64 \<Rightarrow> real \<Rightarrow> bool" where
  "sumAtLeast s b = (case s of Finite a \<Rightarrow> b \<le> a \<and> rnd a = a | PosInf \<Rightarrow> True | _ \<Rightarrow> False)"

definition fiveOnes :: splitMap where
  "fiveOnes = [(''a'', Finite 1), (''b'', Finite 1), (''c'', Finite 1), (''d'', Finite 1), (''e'', Finite 1)]"

text \<open>The percentages and weights of the scenarios of the specification.\<close>

definition tripPercent :: splitMap where
  "tripPercent = [(''alice'', Finite 20), (''bob'', Finite 40), (''charlie'', Finite 40)]"

definition tripWeights :: splitMap where
  "tripWeights = [(''alice'', Finite 0), (''bob'', Finite 4), (''charlie'', Finite 4)]"

text \<open>All edges of a graph as pairs of the ordered pair (from, to) and the amount.\<close>

definition pairAmounts :: "graph \<Rightarrow> (edgeKey \<times> int) list" where
  "pairAmounts gr =
     concat (map (\<lambda>(fromKey, edges). map (\<lambda>e. ((fromKey, To e), AmountInMicroCents (Metadata e))) edges)
       (nodes gr))"

text \<open>
  The label that the specification asks for: the amount in micro-cents rounded half up
  to the cent, written as dollars with two decimals.
\<close>

definition roundHalfUpLabel :: "int \<Rightarrow> string" where
  "roundHalfUpLabel micro =
     (let cents = nat ((micro + 500) div 1000) in
      ''$'' @ showNat (cents div 100) @ ''.'' @
      [digitChar (cents mod 100 div 10), digitChar (cents mod 10)])"

text \<open>Two group states for the export: one with several edges per pair and an edge of
  amount zero, one with a very large amount.\<close>

definition exportState :: Group where
  "exportState =
     \<lparr>groupName = ''trip'',
      ggraph = \<lparr>graphName = ''trip'',
        nodes = [(''bob'', [\<lparr>To = ''alice'', Metadata = \<lparr>AmountInMicroCents = 2000, ExpenseID = 2\<rparr>\<rparr>]),
                 (''charlie'', [\<lparr>To = ''alice'', Metadata = \<lparr>AmountInMicroCents = 0, ExpenseID = 3\<rparr>\<rparr>]),
                 (''alice'', [\<lparr>To = ''bob'', Metadata = \<lparr>AmountInMicroCents = 12345000, ExpenseID = 1\<rparr>\<rparr>,
                             \<lparr>To = ''charlie'', Metadata = \<lparr>AmountInMicroCents = 7000000, ExpenseID = 1\<rparr>\<rparr>,
                             \<lparr>To = ''bob'', Metadata = \<lparr>AmountInMicroCents = 500, ExpenseID = 4\<rparr>\<rparr>])]\<rparr>,
      people = [(''bob'', \<lparr>Name = ''Bob''\<rparr>), (''charlie'', \<lparr>Name = ''Charlie''\<rparr>),
                (''alice'', \<lparr>Name = ''Alice''\<rparr>)],
      expenses = [], expenseIdCounter = 4\<rparr>"

definition hugeState :: Group where
  "hugeState =
     \<lparr>groupName = ''trip'',
      ggraph = \<lparr>graphName = ''trip'',
        nodes = [(''alice'', []),
                 (''bob'', [\<lparr>To = ''alice'',
                     Metadata = \<lparr>AmountInMicroCents = 9007199254740993000, ExpenseID = 1\<rparr>\<rparr>])]\<rparr>,
      people = [(''alice'', \<lparr>Name = ''Alice''\<rparr>), (''bob'', \<lparr>Name = ''Bob''\<rparr>)],
      expenses = [], expenseIdCounter = 1\<rparr>"

text \<open>A percentage map whose sum is below 100 by \<open>1/65536\<close>: 49.9999847412109375 is
  \<open>3276799 / 65536\<close>.\<close>

definition underPercent :: splitMap where
  "underPercent = [(''alice'', Finite (3276799 / 65536)), (''bob'', Finite 50)]"

text \<open>
  Two groups whose member names contain \<open>to pay\<close>. In the first, \<open>y to pay z\<close> pays
  4,000,000 micro-cents and then \<open>z to pay x\<close> pays 4,000,000, both split equally; in the
  second, \<open>y to pay z\<close> pays 4,000,000 and then \<open>z\<close> pays 8,000,000, both split equally.
\<close>

definition equalExpense :: "string \<Rightarrow> int \<Rightarrow> Expense" where
  "equalExpense payer amount =
     \<lparr>ID = 0, TotalMicroCents = amount, PaidBy = payer, Description = ''dinner'',
      SplitMethod = ''equal'', SplitPercentages = [], SplitWeights = []\<rparr>"

definition payGroup :: "(nat \<Rightarrow> nat) \<Rightarrow> error + Group" where
  "payGroup unicodeLower =
     bindE (bindE (bindE (bindE (bindE (bindE (NewGroup ''trip'') (\<lambda>g. AddPerson unicodeLower g ''x''))
       (\<lambda>g. AddPerson unicodeLower g ''y to pay z'')) (\<lambda>g. AddPerson unicodeLower g ''y'')) (\<lambda>g. AddPerson unicodeLower g ''z to pay x''))
       (\<lambda>g. case AddExpense unicodeLower g (equalExpense ''y to pay z'' 4000000) of
               (None, g') \<Rightarrow> Inr g' | (Some err, g') \<Rightarrow> Inl err))
       (\<lambda>g. case AddExpense unicodeLower g (equalExpense ''z to pay x'' 4000000) of
               (None, g') \<Rightarrow> Inr g' | (Some err, g') \<Rightarrow> Inl err)"

definition payState :: Group where
  "payState =
     \<lparr>groupName = ''trip'',
      ggraph = \<lparr>graphName = ''trip'', nodes =
        [(''x'', [\<lparr>To = ''y to pay z'', Metadata = \<lparr>AmountInMicroCents = 1000000, ExpenseID = 1\<rparr>\<rparr>,
                 \<lparr>To = ''z to pay x'', Metadata = \<lparr>AmountInMicroCents = 1000000, ExpenseID = 2\<rparr>\<rparr>]),
         (''y to pay z'', [\<lparr>To = ''z to pay x'', Metadata = \<lparr>AmountInMicroCents = 1000000, ExpenseID = 2\<rparr>\<rparr>]),
         (''y'', [\<lparr>To = ''y to pay z'', Metadata = \<lparr>AmountInMicroCents = 1000000, ExpenseID = 1\<rparr>\<rparr>,
                 \<lparr>To = ''z to pay x'', Metadata = \<lparr>AmountInMicroCents = 1000000, ExpenseID = 2\<rparr>\<rparr>]),
         (''z to pay x'', [\<lparr>To = ''y to pay z'', Metadata = \<lparr>AmountInMicroCents = 1000000, ExpenseID = 1\<rparr>\<rparr>])]\<rparr>,
      people = [(''x'', \<lparr>Name = ''x''\<rparr>), (''y to pay z'', \<lparr>Name = ''y to pay z''\<rparr>),
                (''y'', \<lparr>Name = ''y''\<rparr>), (''z to pay x'', \<lparr>Name = ''z to pay x''\<rparr>)],
      expenses = [(1, (equalExpense ''y to pay z'' 4000000)\<lparr>ID := 1\<rparr>),
                  (2, (equalExpense ''z to pay x'' 4000000)\<lparr>ID := 2\<rparr>)],
      expenseIdCounter = 2\<rparr>"

definition overwriteGroup :: "(nat \<Rightarrow> nat) \<Rightarrow> error + Group" where
  "overwriteGroup unicodeLower =
     bindE (bindE (bindE (bindE (bindE (bindE (NewGroup ''trip'') (\<lambda>g. AddPerson unicodeLower g ''x''))
       (\<lambda>g. AddPerson unicodeLower g ''y to pay z'')) (\<lambda>g. AddPerson unicodeLower g ''x to pay y'')) (\<lambda>g. AddPerson unicodeLower g ''z''))
       (\<lambda>g. case AddExpense unicodeLower g (equalExpense ''y to pay z'' 4000000) of
               (None, g') \<Rightarrow> Inr g' | (Some err, g') \<Rightarrow> Inl err))
       (\<lambda>g. case AddExpense unicodeLower g (equalExpense ''z'' 8000000) of
               (None, g') \<Rightarrow> Inr g' | (Some err, g') \<Rightarrow> Inl err)"

definition overwriteState :: Group where
  "overwriteState =
     \<lparr>groupName = ''trip'',
      ggraph = \<lparr>graphName = ''trip'', nodes =
        [(''x'', [\<lparr>To = ''y to pay z'', Metadata = \<lparr>AmountInMicroCents = 1000000, ExpenseID = 1\<rparr>\<rparr>,
                 \<lparr>To = ''z'', Metadata = \<lparr>AmountInMicroCents = 2000000, ExpenseID = 2\<rparr>\<rparr>]),
         (''y to pay z'', [\<lparr>To = ''z'', Metadata = \<lparr>AmountInMicroCents = 2000000, ExpenseID = 2\<rparr>\<rparr>]),
         (''x to pay y'', [\<lparr>To = ''y to pay z'', Metadata = \<lparr>AmountInMicroCents = 1000000, ExpenseID = 1\<rparr>\<rparr>,
                 \<lparr>To = ''z'', Metadata = \<lparr>AmountInMicroCents = 2000000, ExpenseID = 2\<rparr>\<rparr>]),
         (''z'', [\<lparr>To = ''y to pay z'', Metadata = \<lparr>AmountInMicroCents = 1000000, ExpenseID = 1\<rparr>\<rparr>])]\<rparr>,
      people = [(''x'', \<lparr>Name = ''x''\<rparr>), (''y to pay z'', \<lparr>Name = ''y to pay z''\<rparr>),
                (''x to pay y'', \<lparr>Name = ''x to pay y''\<rparr>), (''z'', \<lparr>Name = ''z''\<rparr>)],
      expenses = [(1, (equalExpense ''y to pay z'' 4000000)\<lparr>ID := 1\<rparr>),
                  (2, (equalExpense ''z'' 8000000)\<lparr>ID := 2\<rparr>)],
      expenseIdCounter = 2\<rparr>"

section \<open>Properties of equal shares\<close>

lemma wrap64_id: "int64 x \<Longrightarrow> wrap64 x = x"
proof -
  assume "int64 x"
  then have "0 \<le> x + 2 ^ 63" and "x + 2 ^ 63 < 2 ^ 64"
    by (simp_all add: int64_def)
  then have "(x + 2 ^ 63) mod 2 ^ 64 = x + 2 ^ 63"
    by (rule mod_pos_pos_trivial)
  then show ?thesis
    by (simp add: wrap64_def)
qed

lemma splitEqual_loop_other:
  "k \<notin> set ps \<Longrightarrow> splitEqual_loop base rem i ps sh k = sh k"
  by (induction ps arbitrary: i sh) auto

lemma splitEqual_loop_dom:
  "dom (splitEqual_loop base rem i ps sh) = dom sh \<union> set ps"
  by (induction ps arbitrary: i sh) auto

lemma splitEqual_loop_nth:
  "distinct ps \<Longrightarrow> j < length ps \<Longrightarrow>
   splitEqual_loop base rem i ps sh (ps ! j) =
     Some (if int (i + j) < rem then wrap64 (base + 1) else base)"
proof (induction ps arbitrary: i j sh)
  case Nil
  then show ?case by simp
next
  case (Cons p ps)
  show ?case
  proof (cases j)
    case 0
    with Cons.prems show ?thesis
      by (simp add: splitEqual_loop_other)
  next
    case (Suc j')
    with Cons.prems have "j' < length ps" "distinct ps" by simp_all
    from Cons.IH [OF this(2) this(1), of "Suc i"] Suc show ?thesis by simp
  qed
qed

lemma sdiv_nonneg: "0 \<le> a \<Longrightarrow> 0 < b \<Longrightarrow> a sdiv b = a div (b::int)"
  by (simp add: signed_divide_int_def sgn_if)

lemma smod_nonneg: "0 \<le> a \<Longrightarrow> 0 < b \<Longrightarrow> a smod b = a mod (b::int)"
  by (simp add: signed_modulo_int_def sgn_if)

lemma splitEqual_loop_sum:
  assumes "distinct ps"
  shows "(\<Sum>k\<leftarrow>ps. the (splitEqual_loop base rem 0 ps Map.empty k)) =
         (\<Sum>j\<leftarrow>[0..<length ps]. if int j < rem then wrap64 (base + 1) else base)"
proof -
  have "map (\<lambda>k. the (splitEqual_loop base rem 0 ps Map.empty k)) ps =
        map (\<lambda>j. if int j < rem then wrap64 (base + 1) else base) [0..<length ps]"
    by (rule nth_equalityI) (simp_all add: splitEqual_loop_nth [OF assms])
  then show ?thesis by simp
qed

lemma sum_list_step:
  "r \<le> n \<Longrightarrow> (\<Sum>j\<leftarrow>[0..<n]. if j < r then b + 1 else (b::int)) = int n * b + int r"
proof (induction n)
  case 0
  then show ?case by simp
next
  case (Suc n)
  show ?case
  proof (cases "r = Suc n")
    case True
    then have "(\<Sum>j\<leftarrow>[0..<n]. if j < r then b + 1 else b) = (\<Sum>j\<leftarrow>[0..<n]. b + 1)"
      by (intro arg_cong [where f = sum_list] map_cong) auto
    with True show ?thesis by (simp add: sum_list_triv algebra_simps)
  next
    case False
    with Suc.prems have "r \<le> n" by simp
    with Suc.IH show ?thesis by (simp add: algebra_simps)
  qed
qed

lemma splitEqual_shares:
  "(length names \<le> 1 \<longrightarrow> splitEqual T names = Inl InsufficientParticipants) \<and>
   (0 \<le> T \<and> T < 2 ^ 63 \<and> distinct names \<and> 2 \<le> length names \<longrightarrow>
     (\<exists>sh. splitEqual T names = Inr sh \<and> dom sh = set names \<and>
        (\<forall>k \<in> set names. sh k = Some
           (if k \<in> set (take (nat (T mod int (length names))) (sort names))
            then T div int (length names) + 1 else T div int (length names))) \<and>
        sum_shares sh = T))"
proof (intro conjI impI)
  assume "length names \<le> 1"
  then show "splitEqual T names = Inl InsufficientParticipants"
    by (simp add: splitEqual_def)
next
  assume a: "0 \<le> T \<and> T < 2 ^ 63 \<and> distinct names \<and> 2 \<le> length names"
  define n where "n = int (length names)"
  define base where "base = T div n"
  define r where "r = T mod n"
  define sorted where "sorted = sort names"
  define sh where "sh = splitEqual_loop base r 0 sorted Map.empty"
  from a have n2: "2 \<le> n" by (simp add: n_def)
  from a n2 have "T sdiv n = T div n" and "T smod n = T mod n"
    by (simp_all add: sdiv_nonneg smod_nonneg)
  with a n2 have eq: "splitEqual T names = Inr sh"
    by (simp add: splitEqual_def Let_def sh_def sorted_def base_def r_def n_def [symmetric])
  have ds: "distinct sorted" and ss: "set sorted = set names" and ls: "length sorted = length names"
    using a by (simp_all add: sorted_def)
  have r0: "0 \<le> r" and rn: "r < n" using n2 by (simp_all add: r_def)
  have b0: "0 \<le> base" using a n2 by (simp add: base_def pos_imp_zdiv_nonneg_iff)
  have "n * base + r = T" by (simp add: base_def r_def)
  with r0 have "n * base \<le> T" by linarith
  moreover from n2 b0 have "2 * base \<le> n * base" by (intro mult_right_mono) simp_all
  ultimately have "2 * base \<le> T" by linarith
  with b0 have w: "wrap64 (base + 1) = base + 1"
    using a by (intro wrap64_id) (simp add: int64_def)
  have dom: "dom sh = set names"
    by (simp add: sh_def splitEqual_loop_dom ss)
  have val: "sh k = Some (if k \<in> set (take (nat r) sorted) then base + 1 else base)"
    if "k \<in> set names" for k
  proof -
    from that ss obtain j where j: "j < length sorted" "sorted ! j = k"
      by (metis in_set_conv_nth)
    have "sh k = Some (if int j < r then base + 1 else base)"
      using splitEqual_loop_nth [OF ds j(1), of base r 0 Map.empty] j(2) w
      by (simp add: sh_def)
    moreover have "k \<in> set (take (nat r) sorted) \<longleftrightarrow> int j < r"
    proof
      assume "k \<in> set (take (nat r) sorted)"
      then obtain i where i: "i < length (take (nat r) sorted)" "take (nat r) sorted ! i = k"
        by (metis in_set_conv_nth)
      then have "sorted ! i = k" "i < length sorted" "i < nat r" by simp_all
      with j ds have "i = j" by (metis nth_eq_iff_index_eq)
      with \<open>i < nat r\<close> show "int j < r" by simp
    next
      assume "int j < r"
      then have "j < length (take (nat r) sorted)" using j(1) by simp
      then have "take (nat r) sorted ! j \<in> set (take (nat r) sorted)"
        by (rule nth_mem)
      with \<open>int j < r\<close> j show "k \<in> set (take (nat r) sorted)" by simp
    qed
    ultimately show ?thesis by simp
  qed
  have "sum_shares sh = (\<Sum>k\<in>set sorted. the (sh k))"
    by (simp add: sum_shares_def dom ss)
  also have "\<dots> = (\<Sum>k\<leftarrow>sorted. the (sh k))"
    using ds by (simp add: sum_list_distinct_conv_sum_set)
  also have "\<dots> = (\<Sum>j\<leftarrow>[0..<length sorted]. if int j < r then wrap64 (base + 1) else base)"
    unfolding sh_def by (rule splitEqual_loop_sum [OF ds])
  also have "\<dots> = (\<Sum>j\<leftarrow>[0..<length sorted]. if j < nat r then base + 1 else base)"
    using r0 w by (intro arg_cong [where f = sum_list] map_cong) auto
  also have "\<dots> = int (length sorted) * base + int (nat r)"
    using rn r0 by (intro sum_list_step) (simp add: n_def ls)
  also have "\<dots> = T"
    using r0 by (simp add: ls base_def r_def n_def [symmetric])
  finally have "sum_shares sh = T" .
  with eq dom val show "\<exists>sh. splitEqual T names = Inr sh \<and> dom sh = set names \<and>
        (\<forall>k \<in> set names. sh k = Some
           (if k \<in> set (take (nat (T mod int (length names))) (sort names))
            then T div int (length names) + 1 else T div int (length names))) \<and>
        sum_shares sh = T"
    by (auto simp: base_def r_def n_def sorted_def)
qed

text \<open>
  Claim C2, amended to totals that are not negative. A list of at most one name is
  refused with \<open>InsufficientParticipants\<close>. For a total \<open>T \<ge> 0\<close> and \<open>n \<ge> 2\<close> distinct
  names, \<open>splitEqual\<close> returns a share for exactly the given names: the
  \<open>T mod n\<close> smallest names (the first ones of the sorted list) receive \<open>T div n + 1\<close>,
  every other name receives \<open>T div n\<close>, and the shares add up to \<open>T\<close>.
\<close>

theorem splitEqual_spec:
  "(length names \<le> 1 \<longrightarrow> splitEqual T names = Inl InsufficientParticipants) \<and>
   (0 \<le> T \<and> T < 2 ^ 63 \<and> distinct names \<and> 2 \<le> length names \<longrightarrow>
     (\<exists>sh. splitEqual T names = Inr sh \<and> dom sh = set names \<and>
        (\<forall>k \<in> set names. sh k = Some
           (if k \<in> set (take (nat (T mod int (length names))) (sort names))
            then T div int (length names) + 1 else T div int (length names))) \<and>
        sum_shares sh = T))"
  by (rule splitEqual_shares)

theorem splitEqual_spec_witness:
  "length [''dana''] \<le> 1 \<and> splitEqual 7 [''dana''] = Inl InsufficientParticipants \<and>
   (0::int) \<le> 10 \<and> distinct [''bob'', ''alice'', ''charlie''] \<and>
   (\<exists>sh. splitEqual 10 [''bob'', ''alice'', ''charlie''] = Inr sh \<and>
      sh ''alice'' = Some 4 \<and> sh ''bob'' = Some 3 \<and> sh ''charlie'' = Some 3 \<and>
      sum_shares sh = 10)"
  using splitEqual_spec [where names = "[''dana'']" and T = 7]
    splitEqual_spec [where names = "[''bob'', ''alice'', ''charlie'']" and T = 10]
  by auto

text \<open>
  Claim C2 as stated covers every total. For the total \<open>-3\<close> and two names the
  truncating division gives \<open>base = -1\<close> and \<open>rem = -1\<close>: no name is incremented and the
  shares add up to \<open>-2\<close>.
\<close>

theorem splitEqual_negative_total_counterexample:
  "splitEqual (- 3) [''a'', ''b''] = Inr [''a'' \<mapsto> - 1, ''b'' \<mapsto> - 1] \<and>
   sum_shares [''a'' \<mapsto> - 1, ''b'' \<mapsto> - 1] = - 2 \<and> (- 2 :: int) \<noteq> - 3"
  by (simp add: splitEqual_def Let_def sum_shares_def signed_divide_int_def
      signed_modulo_int_def)

section \<open>Properties of the rounding\<close>


lemma round64_rnd:
  "round64 x = (if 2 ^ 1024 \<le> \<bar>rnd x\<bar> then (if 0 < x then PosInf else NegInf) else Finite (rnd x))"
  by (simp add: round64_def rnd_def Let_def)

lemma round_ne_bounds: "x - 1 / 2 \<le> of_int (round_ne x)" "of_int (round_ne x) \<le> x + 1 / 2"
  unfolding round_ne_def Let_def by (auto; linarith)+

lemma round_ne_of_int [simp]: "round_ne (of_int n) = n"
  by (simp add: round_ne_def)

lemma round_ne_mono: "x \<le> y \<Longrightarrow> round_ne x \<le> round_ne y"
proof (cases "x = y")
  case True
  then show ?thesis by simp
next
  case False
  assume "x \<le> y"
  with False have "x < y" by simp
  have "real_of_int (round_ne x) \<le> x + 1 / 2" by (rule round_ne_bounds)
  also have "\<dots> < y + 1 / 2" using \<open>x < y\<close> by simp
  also have "\<dots> \<le> of_int (round_ne y) + 1" using round_ne_bounds(1) [of y] by simp
  finally have "real_of_int (round_ne x) < of_int (round_ne y + 1)" by simp
  then have "round_ne x < round_ne y + 1" by (simp only: of_int_less_iff)
  then show ?thesis by simp
qed

lemma round_ne_minus: "round_ne (- x) = - round_ne x"
proof -
  define f where "f = \<lfloor>x\<rfloor>"
  define d where "d = x - of_int f"
  have d: "0 \<le> d" "d < 1" by (simp_all add: d_def f_def) linarith+
  show ?thesis
  proof (cases "d = 0")
    case True
    then have "x = of_int f" by (simp add: d_def)
    then show ?thesis by (simp del: of_int_minus add: of_int_minus [symmetric])
  next
    case False
    have "\<lfloor>- x\<rfloor> = - f - 1"
      using d False unfolding d_def by (intro floor_unique) simp_all
    then have *: "round_ne (- x) =
      (if 1 - d < 1 / 2 then - f - 1 else if 1 / 2 < 1 - d then - f else if even (- f - 1) then - f - 1 else - f)"
      by (simp add: round_ne_def Let_def d_def)
    have **: "round_ne x = (if d < 1 / 2 then f else if 1 / 2 < d then f + 1 else if even f then f else f + 1)"
      by (simp add: round_ne_def Let_def d_def f_def)
    show ?thesis unfolding * ** by auto
  qed
qed

lemma binade_bounds:
  assumes "x \<noteq> 0"
  shows "2 powi binade x \<le> \<bar>x\<bar>" and "\<bar>x\<bar> < 2 powi (binade x + 1)"
proof -
  define a where "a = \<bar>x\<bar>"
  have a0: "0 < a" using assms by (simp add: a_def)
  have "2 powi binade x \<le> a \<and> a < 2 powi (binade x + 1)"
  proof (cases "1 \<le> a")
    case True
    define n where "n = \<lfloor>a\<rfloor>"
    have n1: "1 \<le> n" using True by (simp add: n_def)
    then have bl: "2 ^ nat (bitlen n - 1) \<le> n" "n < 2 ^ nat (bitlen n)"
      using bitlen_bounds [of n] by simp_all
    have blpos: "1 \<le> bitlen n" using n1 bitlen_ge_iff_power [of 1 n] by simp
    have b: "binade x = bitlen n - 1" using True by (simp add: binade_def a_def n_def)
    have "2 powi (bitlen n - 1) = (2::real) ^ nat (bitlen n - 1)"
      using blpos by (simp add: power_int_nonneg_exp)
    also have "\<dots> = of_int (2 ^ nat (bitlen n - 1))" by simp
    also have "\<dots> \<le> of_int n" using bl(1) by (simp only: of_int_le_iff)
    also have "\<dots> \<le> a" by (simp add: n_def)
    finally have 1: "2 powi (bitlen n - 1) \<le> a" .
    have "n + 1 \<le> 2 ^ nat (bitlen n)" using bl(2) by simp
    then have "real_of_int (n + 1) \<le> of_int (2 ^ nat (bitlen n))" by (simp only: of_int_le_iff)
    moreover have "a < of_int (n + 1)" unfolding n_def by linarith
    ultimately have "a < 2 ^ nat (bitlen n)" by simp
    also have "\<dots> = 2 powi (bitlen n)" using blpos by (simp add: power_int_nonneg_exp)
    finally have 2: "a < 2 powi (bitlen n - 1 + 1)" by simp
    from 1 2 b show ?thesis by simp
  next
    case False
    then have a1: "a < 1" by simp
    define m where "m = \<lceil>1 / a\<rceil> - 1"
    have "1 < 1 / a" using a0 a1 by simp
    then have "2 \<le> \<lceil>1 / a\<rceil>" by linarith
    then have m1: "1 \<le> m" by (simp add: m_def)
    have mlt: "of_int m < 1 / a" and mge: "1 / a \<le> of_int m + 1"
      unfolding m_def by linarith+
    define k where "k = bitlen m"
    have bl: "2 ^ nat (k - 1) \<le> m" "m < 2 ^ nat k"
      using bitlen_bounds [of m] m1 by (simp_all add: k_def)
    have k1: "1 \<le> k" using m1 bitlen_ge_iff_power [of 1 m] by (simp add: k_def)
    have b: "binade x = - k" using False by (simp add: binade_def a_def [symmetric] m_def k_def)
    have "m + 1 \<le> 2 ^ nat k" using bl(2) by simp
    then have "real_of_int (m + 1) \<le> of_int (2 ^ nat k)" by (simp only: of_int_le_iff)
    with mge have "1 / a \<le> 2 ^ nat k" by simp
    then have "1 \<le> 2 ^ nat k * a" using a0 by (simp add: field_simps)
    then have "1 / 2 ^ nat k \<le> a" by (simp add: field_simps)
    moreover have "2 powi (- k) = 1 / (2::real) ^ nat k"
      using k1 by (simp add: power_int_minus power_int_nonneg_exp field_simps)
    ultimately have 1: "2 powi (- k) \<le> a" by simp
    have "(2::real) ^ nat (k - 1) \<le> of_int m"
      using bl(1) of_int_le_iff [of "2 ^ nat (k - 1)" m, where ?'a = real] by simp
    with mlt have "2 ^ nat (k - 1) < 1 / a" by linarith
    then have "a * 2 ^ nat (k - 1) < 1" using a0 by (simp add: field_simps)
    then have "a < 1 / 2 ^ nat (k - 1)" by (simp add: field_simps)
    moreover have "2 powi (- k + 1) = 1 / (2::real) ^ nat (k - 1)"
    proof -
      have "- k + 1 = - (k - 1)" by simp
      then have "(2::real) powi (- k + 1) = inverse (2 powi (k - 1))"
        by (simp only: power_int_minus)
      also have "\<dots> = 1 / 2 ^ nat (k - 1)"
        using k1 by (simp add: power_int_nonneg_exp field_simps)
      finally show ?thesis .
    qed
    ultimately have 2: "a < 2 powi (- k + 1)" by simp
    from 1 2 b show ?thesis by simp
  qed
  then show "2 powi binade x \<le> \<bar>x\<bar>" and "\<bar>x\<bar> < 2 powi (binade x + 1)"
    by (simp_all add: a_def)
qed

lemma binade_mono:
  assumes "x \<noteq> 0" "\<bar>x\<bar> \<le> \<bar>y\<bar>"
  shows "binade x \<le> binade y"
proof -
  from assms have y: "y \<noteq> 0" by auto
  have "(2::real) powi binade x \<le> \<bar>x\<bar>" by (rule binade_bounds [OF assms(1)])
  also have "\<dots> \<le> \<bar>y\<bar>" by fact
  also have "\<dots> < 2 powi (binade y + 1)" by (rule binade_bounds [OF y])
  finally have "(2::real) powi binade x < 2 powi (binade y + 1)" .
  then have "binade x < binade y + 1"
    by (metis linorder_not_less one_le_numeral power_int_increasing)
  then show ?thesis by simp
qed

lemma binade_minus [simp]: "binade (- x) = binade x"
  by (simp add: binade_def)


lemma rnd_alt: "rnd x = (if x = 0 then 0 else of_int (round_ne (x / 2 powi lastPlace x)) * 2 powi lastPlace x)"
  by (simp add: rnd_def lastPlace_def)

lemma lastPlace_minus [simp]: "lastPlace (- x) = lastPlace x"
  by (simp add: lastPlace_def)

lemma rnd_minus: "rnd (- x) = - rnd x"
  by (simp add: rnd_alt round_ne_minus)

lemma rnd_0 [simp]: "rnd 0 = 0"
  by (simp add: rnd_def)

lemma rnd_nonneg: "0 \<le> x \<Longrightarrow> 0 \<le> rnd x"
proof -
  assume "0 \<le> x"
  then have "0 \<le> x / 2 powi lastPlace x" by simp
  then have "round_ne 0 \<le> round_ne (x / 2 powi lastPlace x)" by (rule round_ne_mono)
  then have "0 \<le> round_ne (x / 2 powi lastPlace x)" using round_ne_of_int [of 0] by simp
  then show ?thesis by (simp add: rnd_alt)
qed

lemma rnd_nonpos: "x \<le> 0 \<Longrightarrow> rnd x \<le> 0"
  using rnd_nonneg [of "- x"] by (simp add: rnd_minus)

lemma lastPlace_mono: "x \<noteq> 0 \<Longrightarrow> \<bar>x\<bar> \<le> \<bar>y\<bar> \<Longrightarrow> lastPlace x \<le> lastPlace y"
  using binade_mono [of x y] by (simp add: lastPlace_def)

lemma pow2_pos [simp]: "0 < (2::real) powi e"
  by simp

lemma pow2_less_iff: "(2::real) powi a < 2 powi b \<longleftrightarrow> a < b"
proof
  assume "(2::real) powi a < 2 powi b"
  show "a < b"
  proof (rule ccontr)
    assume "\<not> a < b"
    then have "b \<le> a" by simp
    then have "(2::real) powi b \<le> 2 powi a" by (intro power_int_increasing) simp_all
    with \<open>(2::real) powi a < 2 powi b\<close> show False by simp
  qed
next
  assume "a < b"
  then show "(2::real) powi a < 2 powi b" by (intro power_int_strict_increasing) simp_all
qed

lemma pow2_le_iff: "(2::real) powi a \<le> 2 powi b \<longleftrightarrow> a \<le> b"
  using pow2_less_iff [of b a] by (simp add: not_less [symmetric])

lemma rnd_upper:
  assumes "0 < x"
  shows "rnd x \<le> 2 powi (lastPlace x + 53)"
proof -
  let ?e = "lastPlace x"
  have "x < 2 powi (binade x + 1)" using binade_bounds(2) [of x] assms by simp
  also have "\<dots> \<le> 2 powi (?e + 53)"
    by (intro power_int_increasing) (simp_all add: lastPlace_def)
  finally have "x \<le> 2 powi (?e + 53)" by simp
  also have "\<dots> = 2 powi ?e * 2 ^ 53" by (simp add: power_int_add)
  finally have "x / 2 powi ?e \<le> of_int (2 ^ 53)" by (simp add: field_simps)
  then have "round_ne (x / 2 powi ?e) \<le> round_ne (of_int (2 ^ 53))" by (rule round_ne_mono)
  then have "round_ne (x / 2 powi ?e) \<le> 2 ^ 53" by (simp only: round_ne_of_int)
  then have "real_of_int (round_ne (x / 2 powi ?e)) \<le> of_int (2 ^ 53)" by (simp only: of_int_le_iff)
  then have "real_of_int (round_ne (x / 2 powi ?e)) * 2 powi ?e \<le> 2 ^ 53 * 2 powi ?e"
    by (intro mult_right_mono) simp_all
  also have "\<dots> = 2 powi (?e + 53)" by (simp add: power_int_add)
  finally show ?thesis using assms by (simp add: rnd_alt)
qed

lemma rnd_lower:
  assumes "0 < x" "- 1022 \<le> binade x"
  shows "2 powi binade x \<le> rnd x"
proof -
  let ?e = "lastPlace x"
  have e: "?e = binade x - 52" using assms by (simp add: lastPlace_def)
  have "2 powi (?e + 52) \<le> x" using binade_bounds(1) [of x] assms by (simp add: e)
  moreover have "(2::real) powi (?e + 52) = 2 powi ?e * 2 ^ 52" by (simp add: power_int_add)
  ultimately have "of_int (2 ^ 52) \<le> x / 2 powi ?e" by (simp add: field_simps)
  then have "round_ne (of_int (2 ^ 52)) \<le> round_ne (x / 2 powi ?e)" by (rule round_ne_mono)
  then have "2 ^ 52 \<le> round_ne (x / 2 powi ?e)" by (simp only: round_ne_of_int)
  then have "(2::real) ^ 52 \<le> of_int (round_ne (x / 2 powi ?e))"
    using of_int_le_iff [of "2 ^ 52" "round_ne (x / 2 powi ?e)", where ?'a = real] by simp
  then have "2 ^ 52 * 2 powi ?e \<le> real_of_int (round_ne (x / 2 powi ?e)) * 2 powi ?e"
    by (intro mult_right_mono) simp_all
  moreover have "2 ^ 52 * (2::real) powi ?e = 2 powi binade x"
    by (simp add: e power_int_diff)
  ultimately have "2 powi binade x \<le> real_of_int (round_ne (x / 2 powi ?e)) * 2 powi ?e"
    by linarith
  then show ?thesis using assms by (simp add: rnd_alt)
qed

lemma rnd_mono_pos:
  assumes "0 < x" "x \<le> y"
  shows "rnd x \<le> rnd y"
proof -
  from assms have y: "0 < y" by simp
  have le: "lastPlace x \<le> lastPlace y" using assms by (intro lastPlace_mono) simp_all
  show ?thesis
  proof (cases "lastPlace x = lastPlace y")
    case True
    have "x / 2 powi lastPlace y \<le> y / 2 powi lastPlace y"
      using assms by (simp add: divide_right_mono)
    then have "round_ne (x / 2 powi lastPlace y) \<le> round_ne (y / 2 powi lastPlace y)"
      by (rule round_ne_mono)
    then have "real_of_int (round_ne (x / 2 powi lastPlace y)) * 2 powi lastPlace y
        \<le> real_of_int (round_ne (y / 2 powi lastPlace y)) * 2 powi lastPlace y"
      by (intro mult_right_mono) simp_all
    then show ?thesis using assms y True by (simp add: rnd_alt)
  next
    case False
    with le have lt: "lastPlace x + 1 \<le> lastPlace y" by simp
    have "- 1074 \<le> lastPlace x" by (simp add: lastPlace_def)
    with lt have "- 1022 < lastPlace y + 52" by simp
    then have biny: "lastPlace y = binade y - 52" "- 1022 \<le> binade y"
      by (auto simp: lastPlace_def max_def split: if_splits)
    have "rnd x \<le> 2 powi (lastPlace x + 53)" by (rule rnd_upper [OF assms(1)])
    also have "\<dots> \<le> 2 powi binade y"
      using lt by (intro power_int_increasing) (simp_all add: biny)
    also have "\<dots> \<le> rnd y" by (rule rnd_lower [OF y biny(2)])
    finally show ?thesis .
  qed
qed

lemma rnd_mono: "x \<le> y \<Longrightarrow> rnd x \<le> rnd y"
proof -
  assume xy: "x \<le> y"
  consider "0 < x" | "x \<le> 0" "0 \<le> y" | "y < 0" by linarith
  then show ?thesis
  proof cases
    case 1
    then show ?thesis using xy by (rule rnd_mono_pos)
  next
    case 2
    then show ?thesis using rnd_nonpos [of x] rnd_nonneg [of y] by simp
  next
    case 3
    then have "rnd (- y) \<le> rnd (- x)" using xy by (intro rnd_mono_pos) simp_all
    then show ?thesis by (simp add: rnd_minus)
  qed
qed

text \<open>Numbers with at most 53 significant bits and a last place of at least \<open>2^-1074\<close> are
  not changed.\<close>

lemma rnd_exact:
  assumes "\<bar>m\<bar> < 2 ^ 53" "- 1074 \<le> k"
  shows "rnd (of_int m * 2 powi k) = of_int m * 2 powi k"
proof (cases "m = 0")
  case True
  then show ?thesis by simp
next
  case False
  define x :: real where "x = of_int m * 2 powi k"
  have x0: "x \<noteq> 0" using False by (simp add: x_def)
  have m53: "\<bar>real_of_int m\<bar> < 2 ^ 53"
    using assms(1) of_int_less_iff [of "\<bar>m\<bar>" "2 ^ 53", where ?'a = real] by simp
  have "\<bar>x\<bar> = \<bar>real_of_int m\<bar> * 2 powi k" by (simp add: x_def abs_mult)
  also have "\<dots> < 2 ^ 53 * 2 powi k"
    using m53 by (intro mult_strict_right_mono) simp_all
  also have "\<dots> = 2 powi (k + 53)" by (simp add: power_int_add)
  finally have "\<bar>x\<bar> < 2 powi (k + 53)" .
  moreover have "2 powi binade x \<le> \<bar>x\<bar>" by (rule binade_bounds [OF x0])
  ultimately have "(2::real) powi binade x < 2 powi (k + 53)" by simp
  then have "binade x < k + 53" by (simp only: pow2_less_iff)
  then have lp: "lastPlace x \<le> k" using assms(2) by (simp add: lastPlace_def)
  define e where "e = lastPlace x"
  define j where "j = nat (k - e)"
  have "k = e + int j" using lp by (simp add: j_def e_def)
  then have pk: "(2::real) powi k = 2 powi e * 2 ^ j" by (simp add: power_int_add)
  then have xe: "x = of_int (m * 2 ^ j) * 2 powi e" by (simp add: x_def)
  then have "x / 2 powi e = of_int (m * 2 ^ j)" by simp
  then have "round_ne (x / 2 powi e) = m * 2 ^ j" by (simp only: round_ne_of_int)
  then have "rnd x = of_int (m * 2 ^ j) * 2 powi e" using x0 by (simp add: rnd_alt e_def)
  with xe have "rnd x = x" by (simp only:)
  then show ?thesis by (simp only: x_def)
qed

section \<open>Properties of the settlements\<close>

lemma rnd_abs_le:
  assumes "\<bar>x\<bar> \<le> c" "rnd c = c"
  shows "\<bar>rnd x\<bar> \<le> c"
proof -
  have "rnd x \<le> rnd c" using assms(1) by (intro rnd_mono) simp
  moreover have "rnd (- c) \<le> rnd x" using assms(1) by (intro rnd_mono) simp
  ultimately show ?thesis using assms(2) by (simp add: rnd_minus)
qed

lemma rnd_pow2: "- 1074 \<le> k \<Longrightarrow> rnd (2 powi k) = 2 powi k"
  using rnd_exact [of 1 k] by simp

lemma rnd_of_int: "\<bar>n\<bar> < 2 ^ 53 \<Longrightarrow> rnd (of_int n) = of_int n"
  using rnd_exact [of n 0] by simp

lemma round64_Finite:
  assumes "\<bar>x\<bar> \<le> 2 ^ 1023"
  shows "round64 x = Finite (rnd x)"
proof -
  have "rnd (2 powi 1023) = 2 powi 1023" by (rule rnd_pow2) simp
  then have "rnd (2 ^ 1023) = 2 ^ 1023" by simp
  with assms have "\<bar>rnd x\<bar> \<le> 2 ^ 1023" by (rule rnd_abs_le)
  also have "\<dots> < (2::real) ^ 1024" by simp
  finally show ?thesis by (simp add: round64_rnd)
qed

lemma wrap64_int64: "int64 (wrap64 x)"
  by (simp add: wrap64_def int64_def)

lemma wrap64_add_left: "wrap64 (wrap64 a + b) = wrap64 (a + b)"
proof -
  have "wrap64 a + b + 2 ^ 63 = (a + 2 ^ 63) mod 2 ^ 64 + b"
    by (simp add: wrap64_def)
  then have "(wrap64 a + b + 2 ^ 63) mod 2 ^ 64 = ((a + 2 ^ 63) mod 2 ^ 64 + b) mod 2 ^ 64"
    by (simp only:)
  also have "\<dots> = (a + 2 ^ 63 + b) mod 2 ^ 64" by (simp only: mod_add_left_eq)
  also have "a + 2 ^ 63 + b = a + b + 2 ^ 63" by simp
  finally show ?thesis by (simp only: wrap64_def)
qed

lemma wrap64_idem [simp]: "wrap64 (wrap64 a) = wrap64 a"
  using wrap64_add_left [of a 0] by simp

lemma wrap64_diff: "wrap64 (wrap64 a - wrap64 b) = wrap64 (a - b)"
proof -
  have "wrap64 (wrap64 a - wrap64 b) = wrap64 (wrap64 a + (- wrap64 b))" by simp
  also have "\<dots> = wrap64 (a + (- wrap64 b))" by (rule wrap64_add_left)
  also have "\<dots> = wrap64 (a - wrap64 b)" by simp
  also have "\<dots> = wrap64 (a - b)"
  proof -
    have "(a - wrap64 b + 2 ^ 63) mod 2 ^ 64 = (a + 2 ^ 64 - (b + 2 ^ 63) mod 2 ^ 64) mod 2 ^ 64"
      by (simp add: wrap64_def algebra_simps)
    also have "\<dots> = (a + 2 ^ 64 - (b + 2 ^ 63)) mod 2 ^ 64" by (simp add: mod_diff_right_eq)
    also have "\<dots> = (a - b + 2 ^ 63) mod 2 ^ 64"
    proof -
      have "a + 2 ^ 64 - (b + 2 ^ 63) = a - b + 2 ^ 63" by simp
      then show ?thesis by (simp only:)
    qed
    finally show ?thesis by (simp add: wrap64_def)
  qed
  finally show ?thesis .
qed

lemma wrap64_minus_pos:
  assumes "0 < wrap64 x"
  shows "wrap64 (- x) = - wrap64 x"
proof -
  have "wrap64 (- x) = wrap64 (wrap64 0 - wrap64 x)"
    by (simp only: wrap64_diff) simp
  also have "wrap64 0 = 0" by (simp add: wrap64_def)
  finally have "wrap64 (- x) = wrap64 (- wrap64 x)" by simp
  moreover have "int64 (- wrap64 x)" using assms wrap64_int64 [of x] by (simp add: int64_def)
  ultimately show ?thesis by (simp add: wrap64_id)
qed

lemma float64_of_int64_Finite:
  assumes "int64 d"
  shows "float64_of_int64 d = Finite (rnd (of_int d))" "\<bar>rnd (of_int d)\<bar> \<le> 2 ^ 63"
proof -
  have d: "\<bar>real_of_int d\<bar> \<le> 2 ^ 63"
  proof -
    from assms have "\<bar>d\<bar> \<le> 2 ^ 63" by (simp add: int64_def abs_le_iff)
    then have "real_of_int \<bar>d\<bar> \<le> of_int (2 ^ 63)" by (simp only: of_int_le_iff)
    then show ?thesis by simp
  qed
  also have "\<dots> \<le> (2::real) ^ 1023" by simp
  finally show "float64_of_int64 d = Finite (rnd (of_int d))"
    by (simp add: float64_of_int64_def round64_Finite)
  have "rnd (2 powi 63) = 2 powi 63" by (rule rnd_pow2) simp
  then have "rnd (2 ^ 63) = 2 ^ 63" by simp
  with d show "\<bar>rnd (of_int d)\<bar> \<le> 2 ^ 63" by (rule rnd_abs_le)
qed

lemma toDollars_small:
  assumes "int64 d" "d < 1000"
  shows "toDollars d = Finite 0"
proof -
  define f where "f = rnd (of_int d)"
  have f: "float64_of_int64 d = Finite f" "\<bar>f\<bar> \<le> 2 ^ 63"
    using float64_of_int64_Finite [OF assms(1)] by (simp_all add: f_def)
  have "d \<le> 999" using assms(2) by simp
  then have "real_of_int d \<le> of_int 999" by (simp only: of_int_le_iff)
  then have "f \<le> rnd (of_int 999)" unfolding f_def by (rule rnd_mono)
  also have "\<dots> = 999" using rnd_of_int [of 999] by simp
  finally have f999: "f \<le> 999" .
  have "\<bar>f / 1000\<bar> \<le> 2 ^ 63" using f(2) by simp
  also have "\<dots> \<le> (2::real) ^ 1023" by simp
  finally have c: "round64 (f / 1000) = Finite (rnd (f / 1000))" by (rule round64_Finite)
  have "f / 1000 \<le> of_int 1023 * 2 powi (- 10)" using f999 by (simp add: power_int_minus)
  then have "rnd (f / 1000) \<le> rnd (of_int 1023 * 2 powi (- 10))" by (rule rnd_mono)
  also have "\<dots> = of_int 1023 * 2 powi (- 10)" by (rule rnd_exact) simp_all
  also have "\<dots> < 1" by (simp add: power_int_minus)
  finally have "rnd (f / 1000) < 1" .
  with f c show ?thesis by (simp add: toDollars_def Let_def round64_def)
qed

lemma toDollars_large:
  assumes "int64 d" "1000 \<le> d"
  shows "\<exists>r. toDollars d = Finite r \<and> 0 < r"
proof -
  define f where "f = rnd (of_int d)"
  have f: "float64_of_int64 d = Finite f" "\<bar>f\<bar> \<le> 2 ^ 63"
    using float64_of_int64_Finite [OF assms(1)] by (simp_all add: f_def)
  have "real_of_int 1000 \<le> of_int d" using assms(2) by (simp only: of_int_le_iff)
  then have "rnd (of_int 1000) \<le> f" unfolding f_def by (rule rnd_mono)
  moreover have "rnd (of_int 1000) = 1000" using rnd_of_int [of 1000] by simp
  ultimately have f1000: "1000 \<le> f" by simp
  define c where "c = rnd (f / 1000)"
  have "\<bar>f / 1000\<bar> \<le> 2 ^ 63" using f(2) by simp
  also have "\<dots> \<le> (2::real) ^ 1023" by simp
  finally have c: "round64 (f / 1000) = Finite c" unfolding c_def by (rule round64_Finite)
  have cb: "\<bar>c\<bar> \<le> 2 ^ 63"
  proof -
    have "rnd (2 powi 63) = 2 powi 63" by (rule rnd_pow2) simp
    then have "rnd (2 ^ 63) = 2 ^ 63" by simp
    moreover have "\<bar>f / 1000\<bar> \<le> 2 ^ 63" using f(2) by simp
    ultimately show ?thesis unfolding c_def by (intro rnd_abs_le)
  qed
  have "rnd 1 \<le> c" unfolding c_def using f1000 by (intro rnd_mono) simp
  moreover have "rnd 1 = 1" using rnd_of_int [of 1] by simp
  ultimately have c1: "1 \<le> c" by simp
  define r where "r = rnd (c / 100)"
  have "\<bar>c / 100\<bar> \<le> 2 ^ 63" using cb by simp
  also have "\<dots> \<le> (2::real) ^ 1023" by simp
  finally have r: "round64 (c / 100) = Finite r" unfolding r_def by (rule round64_Finite)
  have "2 powi (- 7) \<le> c / 100" using c1 by (simp add: power_int_minus)
  then have "rnd (2 powi (- 7)) \<le> r" unfolding r_def by (rule rnd_mono)
  moreover have "rnd (2 powi (- 7)) = 2 powi (- 7)" by (rule rnd_pow2) simp
  ultimately have "0 < r" using pow2_pos [of "- 7"] by linarith
  moreover have "toDollars d = Finite r"
    using f c c1 r by (simp add: toDollars_def Let_def)
  ultimately show ?thesis by blast
qed

lemma wrap64_0 [simp]: "wrap64 0 = 0"
  by (simp add: wrap64_def)

lemma sumTo_fold:
  "fold (\<lambda>e s. if To e = b then wrap64 (s + AmountInMicroCents (Metadata e)) else s) es (wrap64 s0) =
   wrap64 (s0 + (\<Sum>e\<leftarrow>filter (\<lambda>e. To e = b) es. AmountInMicroCents (Metadata e)))"
proof (induction es arbitrary: s0)
  case Nil
  then show ?case by simp
next
  case (Cons e es)
  show ?case
  proof (cases "To e = b")
    case True
    have "wrap64 (wrap64 s0 + AmountInMicroCents (Metadata e)) = wrap64 (s0 + AmountInMicroCents (Metadata e))"
      by (rule wrap64_add_left)
    with True Cons.IH [of "s0 + AmountInMicroCents (Metadata e)"] show ?thesis
      by (simp add: add.assoc)
  next
    case False
    with Cons.IH [of s0] show ?thesis by simp
  qed
qed

lemma sumTo_owed: "sumTo (edgesOf gr a) b = wrap64 (owed gr a b)"
  using sumTo_fold [of b "edgesOf gr a" 0] by (simp add: sumTo_def owed_def)

lemma netMicroCents_owed:
  "netMicroCents g a b = wrap64 (owed (ggraph g) a b - owed (ggraph g) b a)"
  by (simp add: netMicroCents_def sumTo_owed wrap64_diff)

lemma netMicroCents_int64: "int64 (netMicroCents g a b)"
  by (simp add: netMicroCents_def wrap64_int64)

lemma netMicroCents_swap:
  assumes "0 < netMicroCents g a b"
  shows "netMicroCents g b a < 0"
proof -
  let ?x = "owed (ggraph g) a b - owed (ggraph g) b a"
  from assms have "0 < wrap64 ?x" by (simp add: netMicroCents_owed)
  then have "wrap64 (- ?x) = - wrap64 ?x" by (rule wrap64_minus_pos)
  moreover have "netMicroCents g b a = wrap64 (- ?x)" by (simp add: netMicroCents_owed)
  ultimately show ?thesis using assms by (simp add: netMicroCents_owed)
qed

lemma getMoneyTobePaid_toDollars:
  "getMoneyTobePaid g a b = toDollars (netMicroCents g a b)"
  by (simp add: getMoneyTobePaid_def toDollars_def)

lemma getMoneyTobePaid_positive_iff:
  "fgt (getMoneyTobePaid g a b) (Finite 0) \<longleftrightarrow> 1000 \<le> netMicroCents g a b"
proof (cases "1000 \<le> netMicroCents g a b")
  case True
  with toDollars_large [OF netMicroCents_int64 True] show ?thesis
    by (auto simp: getMoneyTobePaid_toDollars fgt_def)
next
  case False
  then have "netMicroCents g a b < 1000" by simp
  with toDollars_small [OF netMicroCents_int64 this] False show ?thesis
    by (simp add: getMoneyTobePaid_toDollars fgt_def)
qed

lemma settlementEntries_iff:
  "((a, b), x) \<in> set (settlementEntries g) \<longleftrightarrow>
     a \<in> fst ` set (nodes (ggraph g)) \<and> b \<in> fst ` set (nodes (ggraph g)) \<and> a \<noteq> b \<and>
     1000 \<le> netMicroCents g a b \<and> x = getMoneyTobePaid g a b"
  by (auto simp: settlementEntries_def Let_def getMoneyTobePaid_positive_iff split: if_splits)

lemma fold_update_keys:
  "fst ` set (fold (\<lambda>(k, v) r. AList.update k v r) xs r0) = fst ` set r0 \<union> fst ` set xs"
proof (induction xs arbitrary: r0)
  case Nil
  then show ?case by simp
next
  case (Cons kv xs)
  obtain k v where kv: "kv = (k, v)" by (cases kv)
  have "fst ` set (AList.update k v r0) = insert k (fst ` set r0)"
    using dom_update [of k v r0] by (simp add: dom_map_of_conv_image_fst)
  with Cons.IH [of "AList.update k v r0"] kv show ?case by auto
qed

lemma GetExpenseDetails_keys:
  "fst ` set (GetExpenseDetails g) =
     (\<lambda>((a, b), x). settlementKey g a b) ` set (settlementEntries g)"
proof -
  have "GetExpenseDetails g =
      fold (\<lambda>(k, v) r. AList.update k v r)
        (map (\<lambda>((a, b), x). (settlementKey g a b, x)) (settlementEntries g)) []"
    by (simp add: GetExpenseDetails_def fold_map comp_def split_def)
  then have "fst ` set (GetExpenseDetails g) =
      fst ` set (map (\<lambda>((a, b), x). (settlementKey g a b, x)) (settlementEntries g))"
    by (simp only: fold_update_keys) simp
  also have "\<dots> = (\<lambda>((a, b), x). settlementKey g a b) ` set (settlementEntries g)"
    by (simp add: image_image split_def)
  finally show ?thesis .
qed

text \<open>
  The pairs for which an entry is written. The net balance that \<open>getMoneyTobePaid\<close>
  computes for the pair \<open>(a, b)\<close> is
  the sum of the amounts of the edges from \<open>a\<close> to \<open>b\<close> minus the sum of the amounts of
  the edges from \<open>b\<close> to \<open>a\<close>, in \<open>int64\<close> arithmetic (it is the exact difference
  whenever that fits into an \<open>int64\<close>). The amounts for \<open>(a, b)\<close> and for \<open>(b, a)\<close> are
  never both positive, \<open>GetExpenseDetails\<close> never writes an entry for both directions of
  a pair, and it writes one only for a direction whose net balance is positive. This is a
  statement about the ordered pairs, not about the keys under which the entries are
  stored in the map returned.
\<close>

theorem netBalance_antisymmetric:
  "netMicroCents g a b = wrap64 (owed (ggraph g) a b - owed (ggraph g) b a) \<and>
   (int64 (owed (ggraph g) a b - owed (ggraph g) b a) \<longrightarrow>
      netMicroCents g a b = owed (ggraph g) a b - owed (ggraph g) b a) \<and>
   \<not> (fgt (getMoneyTobePaid g a b) (Finite 0) \<and> fgt (getMoneyTobePaid g b a) (Finite 0)) \<and>
   (\<forall>x y. ((a, b), x) \<in> set (settlementEntries g) \<longrightarrow> ((b, a), y) \<notin> set (settlementEntries g)) \<and>
   (\<forall>x. ((a, b), x) \<in> set (settlementEntries g) \<longrightarrow>
      0 < netMicroCents g a b \<and> x = getMoneyTobePaid g a b)"
proof (intro conjI impI allI)
  show "netMicroCents g a b = wrap64 (owed (ggraph g) a b - owed (ggraph g) b a)"
    by (rule netMicroCents_owed)
  show "netMicroCents g a b = owed (ggraph g) a b - owed (ggraph g) b a"
    if "int64 (owed (ggraph g) a b - owed (ggraph g) b a)"
    using that by (simp add: netMicroCents_owed wrap64_id)
  show "\<not> (fgt (getMoneyTobePaid g a b) (Finite 0) \<and> fgt (getMoneyTobePaid g b a) (Finite 0))"
    using netMicroCents_swap [of g a b] by (auto simp: getMoneyTobePaid_positive_iff)
  show "((b, a), y) \<notin> set (settlementEntries g)" if "((a, b), x) \<in> set (settlementEntries g)" for x y
    using that netMicroCents_swap [of g a b] by (auto simp: settlementEntries_iff)
  show "0 < netMicroCents g a b" "x = getMoneyTobePaid g a b"
    if "((a, b), x) \<in> set (settlementEntries g)" for x
    using that by (auto simp: settlementEntries_iff)
qed

text \<open>
  The threshold, again for the ordered pairs. A net balance below 1000 micro-cents (one
  cent), in particular every net
  balance that is not positive, gives the amount zero, and \<open>GetExpenseDetails\<close> writes no
  entry for the pair. A net balance of 1000 micro-cents or more gives a positive amount,
  and an entry with that amount is written for every such pair of distinct nodes. The
  keys of the returned map are exactly the keys of the entries written.
\<close>

theorem settlement_threshold:
  "(netMicroCents g a b < 1000 \<longrightarrow>
      getMoneyTobePaid g a b = Finite 0 \<and> (\<forall>x. ((a, b), x) \<notin> set (settlementEntries g))) \<and>
   (1000 \<le> netMicroCents g a b \<longrightarrow>
      (\<exists>r. getMoneyTobePaid g a b = Finite r \<and> 0 < r) \<and>
      (a \<in> fst ` set (nodes (ggraph g)) \<and> b \<in> fst ` set (nodes (ggraph g)) \<and> a \<noteq> b \<longrightarrow>
         ((a, b), getMoneyTobePaid g a b) \<in> set (settlementEntries g))) \<and>
   fst ` set (GetExpenseDetails g) =
     (\<lambda>((a, b), x). settlementKey g a b) ` set (settlementEntries g)"
proof (intro conjI impI)
  assume lt: "netMicroCents g a b < 1000"
  show "getMoneyTobePaid g a b = Finite 0"
    using toDollars_small [OF netMicroCents_int64 lt] by (simp add: getMoneyTobePaid_toDollars)
  show "\<forall>x. ((a, b), x) \<notin> set (settlementEntries g)"
    using lt by (simp add: settlementEntries_iff)
next
  assume ge: "1000 \<le> netMicroCents g a b"
  show "\<exists>r. getMoneyTobePaid g a b = Finite r \<and> 0 < r"
    using toDollars_large [OF netMicroCents_int64 ge] by (simp add: getMoneyTobePaid_toDollars)
  show "((a, b), getMoneyTobePaid g a b) \<in> set (settlementEntries g)"
    if "a \<in> fst ` set (nodes (ggraph g)) \<and> b \<in> fst ` set (nodes (ggraph g)) \<and> a \<noteq> b"
    using that ge by (simp add: settlementEntries_iff)
next
  show "fst ` set (GetExpenseDetails g) =
     (\<lambda>((a, b), x). settlementKey g a b) ` set (settlementEntries g)"
    by (rule GetExpenseDetails_keys)
qed

lemma ledger_owed:
  "owed (ggraph ledgerState) ''alice'' ''bob'' = 5300"
  "owed (ggraph ledgerState) ''bob'' ''alice'' = 2000"
  by (simp_all add: owed_def edgesOf_def ledgerState_def)

theorem netBalance_antisymmetric_witness:
  "int64 (owed (ggraph ledgerState) ''alice'' ''bob'' - owed (ggraph ledgerState) ''bob'' ''alice'') \<and>
   netMicroCents ledgerState ''alice'' ''bob'' = 3300 \<and>
   ((''alice'', ''bob''), getMoneyTobePaid ledgerState ''alice'' ''bob'')
      \<in> set (settlementEntries ledgerState) \<and>
   (\<forall>y. ((''bob'', ''alice''), y) \<notin> set (settlementEntries ledgerState))"
proof -
  note t = netBalance_antisymmetric [of ledgerState "''alice''" "''bob''"]
  have i: "int64 (owed (ggraph ledgerState) ''alice'' ''bob'' - owed (ggraph ledgerState) ''bob'' ''alice'')"
    by (simp add: ledger_owed int64_def)
  with t have n: "netMicroCents ledgerState ''alice'' ''bob'' = 3300"
    by (simp add: ledger_owed)
  then have e: "((''alice'', ''bob''), getMoneyTobePaid ledgerState ''alice'' ''bob'')
      \<in> set (settlementEntries ledgerState)"
    by (simp add: settlementEntries_iff) (simp add: ledgerState_def)
  with t have "\<forall>y. ((''bob'', ''alice''), y) \<notin> set (settlementEntries ledgerState)"
    by blast
  with i n e show ?thesis by blast
qed

theorem settlement_threshold_witness:
  "netMicroCents ledgerState ''bob'' ''alice'' < 1000 \<and>
   getMoneyTobePaid ledgerState ''bob'' ''alice'' = Finite 0 \<and>
   1000 \<le> netMicroCents ledgerState ''alice'' ''bob'' \<and>
   ((''alice'', ''bob''), getMoneyTobePaid ledgerState ''alice'' ''bob'')
      \<in> set (settlementEntries ledgerState)"
proof -
  have a: "netMicroCents ledgerState ''alice'' ''bob'' = 3300"
    and b: "netMicroCents ledgerState ''bob'' ''alice'' = - 3300"
    by (simp_all add: netMicroCents_owed ledger_owed wrap64_def)
  have m: "''alice'' \<in> fst ` set (nodes (ggraph ledgerState)) \<and>
      ''bob'' \<in> fst ` set (nodes (ggraph ledgerState)) \<and> ''alice'' \<noteq> ''bob''"
    by (simp add: ledgerState_def)
  from settlement_threshold [of ledgerState "''bob''" "''alice''"] b
  have "getMoneyTobePaid ledgerState ''bob'' ''alice'' = Finite 0" by simp
  moreover from settlement_threshold [of ledgerState "''alice''" "''bob''"] a m
  have "((''alice'', ''bob''), getMoneyTobePaid ledgerState ''alice'' ''bob'')
      \<in> set (settlementEntries ledgerState)" by simp
  ultimately show ?thesis using a b by simp
qed

section \<open>Properties of AddExpense and of the distribution of the leftover\<close>

lemma addEdge_lookup:
  assumes "addEdge gr k p md = Inr gr'"
  shows "map_of (nodes gr') x \<noteq> None \<longleftrightarrow> map_of (nodes gr) x \<noteq> None"
  using assms
  by (auto simp: addEdge_def update_conv' split: option.splits if_splits)

lemma addEdge_defined:
  assumes "map_of (nodes gr) k \<noteq> None" "map_of (nodes gr) p \<noteq> None"
  shows "\<exists>gr'. addEdge gr k p md = Inr gr'"
  using assms by (auto simp: addEdge_def split: option.splits)

lemma addEdges_succeeds:
  assumes "\<forall>k\<in>set names. map_of (nodes gr) k \<noteq> None" "map_of (nodes gr) p \<noteq> None"
  shows "fst (addEdges gr names p sh eid) = None"
  using assms
proof (induction names arbitrary: gr)
  case Nil
  then show ?case by simp
next
  case (Cons k names)
  show ?case
  proof (cases "k = p \<or> sh k = None")
    case True
    with Cons show ?thesis by auto
  next
    case False
    then obtain owed where owed: "sh k = Some owed" and kp: "k \<noteq> p" by auto
    from Cons.prems obtain gr' where
      gr': "addEdge gr k p \<lparr>AmountInMicroCents = owed, ExpenseID = eid\<rparr> = Inr gr'"
      using addEdge_defined [of gr k p] by auto
    have "\<forall>k\<in>set names. map_of (nodes gr') k \<noteq> None" "map_of (nodes gr') p \<noteq> None"
      using Cons.prems addEdge_lookup [OF gr'] by simp_all
    then have "fst (addEdges gr' names p sh eid) = None" by (rule Cons.IH)
    with owed kp gr' show ?thesis by simp
  qed
qed

lemma checkSync_None:
  assumes "checkSync g = None"
  shows "\<forall>k\<in>set (map fst (people g)). map_of (nodes (ggraph g)) k \<noteq> None"
proof -
  from assms have "list_all (\<lambda>(name, p). map_of (nodes (ggraph g)) name \<noteq> None) (people g)"
    by (simp add: checkSync_def split: if_splits)
  then show ?thesis by (auto simp: list_all_iff)
qed

lemma AddExpense_error_unchanged:
  assumes "fst (AddExpense unicodeLower g e) \<noteq> None"
  shows "snd (AddExpense unicodeLower g e) = g"
proof (rule ccontr)
  assume neq: "snd (AddExpense unicodeLower g e) \<noteq> g"
  then obtain to np nw sh where
    payer: "map_of (people g) (normalizeName unicodeLower (PaidBy e)) = Some to" and
    sync: "checkSync g = None" and
    res: "fst (AddExpense unicodeLower g e) =
      fst (addEdges (ggraph g) (map fst (people g)) (normalizeName unicodeLower (PaidBy e)) sh
            (wrap64 (expenseIdCounter g + 1)))"
    by (auto simp: AddExpense_def Let_def split_def
        split: if_splits option.splits sum.splits)
  have 1: "\<forall>k\<in>set (map fst (people g)). map_of (nodes (ggraph g)) k \<noteq> None"
    by (rule checkSync_None [OF sync])
  moreover from payer have "normalizeName unicodeLower (PaidBy e) \<in> set (map fst (people g))"
    by (metis map_of_SomeD fst_conv image_eqI set_map)
  ultimately have "map_of (nodes (ggraph g)) (normalizeName unicodeLower (PaidBy e)) \<noteq> None" by blast
  with 1 have "fst (addEdges (ggraph g) (map fst (people g)) (normalizeName unicodeLower (PaidBy e)) sh
            (wrap64 (expenseIdCounter g + 1))) = None"
    by (rule addEdges_succeeds)
  with res assms show False by simp
qed

lemma sum_list_all_zero: "\<forall>x\<in>set xs. f x = (0::int) \<Longrightarrow> sum_list (map f xs) = 0"
  by (induction xs) auto

lemma sum_update_append:
  assumes "distinct (map fst al)" "map_of al k = Some es"
  shows "sum_list (map f (concat (map snd (AList.update k (es @ [x]) al)))) =
         sum_list (map f (concat (map snd al))) + (f x :: int)"
  using assms
proof (induction al)
  case Nil
  then show ?case by simp
next
  case (Cons kv al)
  obtain k' es' where kv: "kv = (k', es')" by (cases kv)
  show ?case
  proof (cases "k' = k")
    case True
    with Cons.prems kv show ?thesis by simp
  next
    case False
    with Cons kv show ?thesis by simp
  qed
qed

lemma addEdge_sum:
  assumes "addEdge gr k p md = Inr gr'" "distinct (map fst (nodes gr))"
  shows "sum_list (map f (allEdges gr')) =
         sum_list (map f (allEdges gr)) + (f \<lparr>To = p, Metadata = md\<rparr> :: int)"
  using assms
  by (auto simp: addEdge_def allEdges_def sum_update_append split: option.splits)

lemma addEdge_distinct:
  assumes "addEdge gr k p md = Inr gr'" "distinct (map fst (nodes gr))"
  shows "distinct (map fst (nodes gr'))"
  using assms
  by (auto simp: addEdge_def distinct_update split: option.splits)

lemma addEdges_sum:
  assumes "fst (addEdges gr names p sh eid) = None" "distinct (map fst (nodes gr))"
  shows "sum_list (map f (allEdges (snd (addEdges gr names p sh eid)))) =
         sum_list (map f (allEdges gr)) +
         (\<Sum>k\<leftarrow>filter (\<lambda>k. k \<noteq> p \<and> sh k \<noteq> None) names.
            f \<lparr>To = p, Metadata = \<lparr>AmountInMicroCents = the (sh k), ExpenseID = eid\<rparr>\<rparr> :: int)"
  using assms
proof (induction names arbitrary: gr)
  case Nil
  then show ?case by simp
next
  case (Cons k names)
  show ?case
  proof (cases "k = p \<or> sh k = None")
    case True
    with Cons show ?thesis by auto
  next
    case False
    then obtain owed where owed: "sh k = Some owed" and kp: "k \<noteq> p" by auto
    let ?md = "\<lparr>AmountInMicroCents = owed, ExpenseID = eid\<rparr>"
    show ?thesis
    proof (cases "addEdge gr k p ?md")
      case (Inl err)
      with Cons.prems owed kp show ?thesis by simp
    next
      case (Inr gr')
      with Cons.prems owed kp have "fst (addEdges gr' names p sh eid) = None" by simp
      moreover note s = addEdge_sum [OF Inr Cons.prems(2), where f = f]
      moreover note d = addEdge_distinct [OF Inr Cons.prems(2)]
      ultimately have "sum_list (map f (allEdges (snd (addEdges gr' names p sh eid)))) =
         sum_list (map f (allEdges gr')) +
         (\<Sum>k\<leftarrow>filter (\<lambda>k. k \<noteq> p \<and> sh k \<noteq> None) names.
            f \<lparr>To = p, Metadata = \<lparr>AmountInMicroCents = the (sh k), ExpenseID = eid\<rparr>\<rparr>)"
        by (intro Cons.IH) simp_all
      with s owed kp Inr show ?thesis by simp
    qed
  qed
qed

lemma expenseEdgeTotal_alt:
  "expenseEdgeTotal g eid =
     sum_list (map (\<lambda>e. if ExpenseID (Metadata e) = eid then AmountInMicroCents (Metadata e) else 0)
       (allEdges (ggraph g)))"
  by (simp add: expenseEdgeTotal_def sum_list_map_filter')

lemma AddExpense_success:
  assumes "AddExpense unicodeLower g e = (None, g')"
  shows "\<exists>np nw sh.
     normalizeSplitMap unicodeLower (SplitPercentages e) = Inr np \<and> allMembers (people g) np \<and>
     normalizeSplitMap unicodeLower (SplitWeights e) = Inr nw \<and> allMembers (people g) nw \<and>
     computeShares (SplitMethod e) (TotalMicroCents e) (map fst (people g)) np nw = Inr sh \<and>
     0 < TotalMicroCents e \<and>
     expenseIdCounter g' = wrap64 (expenseIdCounter g + 1) \<and>
     people g' = people g \<and>
     map_of (people g) (normalizeName unicodeLower (PaidBy e)) \<noteq> None \<and>
     addEdges (ggraph g) (map fst (people g)) (normalizeName unicodeLower (PaidBy e)) sh
       (wrap64 (expenseIdCounter g + 1)) = (None, ggraph g')"
  using assms
  by (auto simp: AddExpense_def Let_def split_def prod_eq_iff
      split: if_splits option.splits sum.splits)

lemma expense_edges_lemma:
  assumes ok: "AddExpense unicodeLower g e = (None, g')"
    and wf: "distinct (map fst (nodes (ggraph g)))"
    and fresh: "\<forall>x\<in>set (allEdges (ggraph g)). ExpenseID (Metadata x) \<noteq> wrap64 (expenseIdCounter g + 1)"
  shows "\<exists>sh. expenseShares unicodeLower g e = Inr sh \<and>
     expenseEdgeTotal g' (expenseIdCounter g') =
       (\<Sum>k\<leftarrow>owers g (normalizeName unicodeLower (PaidBy e)) sh. the (sh k))"
proof -
  let ?eid = "wrap64 (expenseIdCounter g + 1)"
  let ?p = "normalizeName unicodeLower (PaidBy e)"
  let ?f = "\<lambda>e. if ExpenseID (Metadata e) = ?eid then AmountInMicroCents (Metadata e) else 0"
  from AddExpense_success [OF ok] obtain np nw sh where
    n1: "normalizeSplitMap unicodeLower (SplitPercentages e) = Inr np" and
    n2: "normalizeSplitMap unicodeLower (SplitWeights e) = Inr nw" and
    cs: "computeShares (SplitMethod e) (TotalMicroCents e) (map fst (people g)) np nw = Inr sh" and
    c: "expenseIdCounter g' = ?eid" and
    ae: "addEdges (ggraph g) (map fst (people g)) ?p sh ?eid = (None, ggraph g')"
    by blast
  from n1 n2 cs have sh: "expenseShares unicodeLower g e = Inr sh" by (simp add: expenseShares_def)
  from ae have "fst (addEdges (ggraph g) (map fst (people g)) ?p sh ?eid) = None" by simp
  from addEdges_sum [OF this wf, where f = ?f] ae
  have "sum_list (map ?f (allEdges (ggraph g'))) =
      sum_list (map ?f (allEdges (ggraph g))) +
      (\<Sum>k\<leftarrow>filter (\<lambda>k. k \<noteq> ?p \<and> sh k \<noteq> None) (map fst (people g)). the (sh k))"
    by simp
  moreover have "sum_list (map ?f (allEdges (ggraph g))) = 0"
    using fresh by (intro sum_list_all_zero) auto
  ultimately have "expenseEdgeTotal g' ?eid = (\<Sum>k\<leftarrow>owers g ?p sh. the (sh k))"
    by (simp add: expenseEdgeTotal_alt owers_def)
  with sh c show ?thesis by auto
qed

lemma set_insertBy [simp]: "set (insertBy lt a xs) = insert a (set xs)"
  by (induction xs) auto

lemma length_insertBy [simp]: "length (insertBy lt a xs) = Suc (length xs)"
  by (induction xs) auto

lemma sum_list_insertBy:
  "sum_list (map f (insertBy lt a xs)) = (f a :: int) + sum_list (map f xs)"
  by (induction xs) auto

lemma distinct_map_insertBy:
  "distinct (map f (insertBy lt a xs)) \<longleftrightarrow> f a \<notin> f ` set xs \<and> distinct (map f xs)"
  by (induction xs) auto

lemma set_sortSlice [simp]: "set (sortSlice lt xs) = set xs"
  by (induction xs) (simp_all add: sortSlice_def)

lemma length_sortSlice [simp]: "length (sortSlice lt xs) = length xs"
  by (induction xs) (simp_all add: sortSlice_def)

lemma sortSlice_Nil_iff [simp]: "sortSlice lt xs = [] \<longleftrightarrow> xs = []"
  using length_sortSlice [of lt xs] by (metis length_0_conv)

lemma sum_list_sortSlice:
  "sum_list (map f (sortSlice lt xs)) = (sum_list (map f xs) :: int)"
  by (induction xs) (simp_all add: sortSlice_def sum_list_insertBy)

lemma distinct_map_sortSlice:
  "distinct (map f (sortSlice lt xs)) \<longleftrightarrow> distinct (map f xs)"
proof (induction xs)
  case Nil
  then show ?case by (simp add: sortSlice_def)
next
  case (Cons a xs)
  have "sortSlice lt (a # xs) = insertBy lt a (sortSlice lt xs)" by (simp add: sortSlice_def)
  with Cons show ?case by (simp add: distinct_map_insertBy)
qed

text \<open>The shares set to the floors.\<close>

lemma dom_fold_base:
  "dom (fold (\<lambda>it sh. sh(iname it \<mapsto> ibase it)) xs m) = dom m \<union> iname ` set xs"
  by (induction xs arbitrary: m) auto

lemma fold_base_other:
  "k \<notin> iname ` set xs \<Longrightarrow> fold (\<lambda>it sh. sh(iname it \<mapsto> ibase it)) xs m k = m k"
  by (induction xs arbitrary: m) auto

lemma fold_base_value:
  assumes "distinct (map iname xs)" "it \<in> set xs"
  shows "fold (\<lambda>it sh. sh(iname it \<mapsto> ibase it)) xs m (iname it) = Some (ibase it)"
  using assms
proof (induction xs arbitrary: m)
  case Nil
  then show ?case by simp
next
  case (Cons a xs)
  show ?case
  proof (cases "it = a")
    case True
    with Cons.prems show ?thesis by (simp add: fold_base_other del: fun_upd_apply) simp
  next
    case False
    with Cons show ?thesis by simp
  qed
qed

lemma dom_incr [simp]: "dom (incr sh k) = insert k (dom sh)"
  by (simp add: incr_def)

lemma dom_fold_incr:
  "\<forall>i\<in>set js. h i \<in> dom sh \<Longrightarrow> dom (fold (\<lambda>i sh. incr sh (h i)) js sh) = dom sh"
  by (induction js arbitrary: sh) (auto simp: insert_absorb)

lemma distribute_dom:
  assumes "distribute T items = Inr sh"
  shows "dom sh = iname ` set items"
proof -
  define sorted where "sorted = sortSlice itemLess items"
  define shares0 where "shares0 = fold (\<lambda>it sh. sh(iname it \<mapsto> ibase it)) sorted Map.empty"
  define n where "n = nat (wrap64 (T - usedOf items))"
  have d0: "dom shares0 = iname ` set items"
    by (simp add: shares0_def dom_fold_base sorted_def)
  from assms have sh: "sh = fold (\<lambda>i sh. incr sh (iname (sorted ! (i mod length sorted)))) [0..<n] shares0"
    and ne: "0 < n \<longrightarrow> sorted \<noteq> []"
    by (auto simp: distribute_def Let_def sorted_def shares0_def n_def split: if_splits)
  have "\<forall>i\<in>set [0..<n]. iname (sorted ! (i mod length sorted)) \<in> dom shares0"
  proof
    fix i assume "i \<in> set [0..<n]"
    then have "0 < n" by auto
    with ne have "sorted \<noteq> []" by simp
    then have "i mod length sorted < length sorted" by simp
    then have "sorted ! (i mod length sorted) \<in> set sorted" by (rule nth_mem)
    then show "iname (sorted ! (i mod length sorted)) \<in> dom shares0"
      by (simp add: d0 sorted_def)
  qed
  then have "dom sh = dom shares0" unfolding sh by (rule dom_fold_incr)
  with d0 show ?thesis by simp
qed

lemma percentItems_names [simp]: "map iname (percentItems T perc) = map fst perc"
  by (simp add: percentItems_def mkItem_def Let_def split_def comp_def)

lemma weightItems_names:
  "map iname (weightItems T s w) = map fst (filter (\<lambda>(nm, weight). \<not> feq weight (Finite 0)) w)"
  by (simp add: weightItems_def mkItem_def Let_def split_def comp_def)

lemma splitByPercent_dom:
  "splitByPercent T perc = Inr sh \<Longrightarrow> dom sh = fst ` set perc"
proof -
  assume "splitByPercent T perc = Inr sh"
  then have "distribute T (percentItems T perc) = Inr sh"
    by (simp add: splitByPercent_def Let_def split: if_splits)
  then have "dom sh = iname ` set (percentItems T perc)" by (rule distribute_dom)
  also have "\<dots> = set (map iname (percentItems T perc))" by (simp only: set_map)
  also have "\<dots> = set (map fst perc)" by (simp only: percentItems_names)
  also have "\<dots> = fst ` set perc" by (simp only: set_map)
  finally show ?thesis .
qed

lemma splitByWeights_dom:
  "splitByWeights T w = Inr sh \<Longrightarrow>
     dom sh = fst ` {(nm, weight) \<in> set w. \<not> feq weight (Finite 0)}"
proof -
  assume "splitByWeights T w = Inr sh"
  then obtain s where "distribute T (weightItems T s w) = Inr sh"
    by (auto simp: splitByWeights_def split: sum.splits if_splits)
  then have "dom sh = iname ` set (weightItems T s w)" by (rule distribute_dom)
  also have "\<dots> = set (map iname (weightItems T s w))" by simp
  also have "\<dots> = fst ` {(nm, weight) \<in> set w. \<not> feq weight (Finite 0)}"
    by (auto simp: weightItems_names)
  finally show ?thesis .
qed

lemma splitEqual_dom: "splitEqual T names = Inr sh \<Longrightarrow> dom sh = set names"
proof -
  assume "splitEqual T names = Inr sh"
  then obtain b r where "sh = splitEqual_loop b r 0 (sort names) Map.empty"
    by (auto simp: splitEqual_def Let_def split: if_splits)
  then show ?thesis by (simp add: splitEqual_loop_dom)
qed

lemma allMembers_keys: "allMembers ps m \<Longrightarrow> fst ` set m \<subseteq> fst ` set ps"
  by (force simp: allMembers_def list_all_iff dom_map_of_conv_image_fst [symmetric])

lemma computeShares_cases:
  assumes "computeShares m T names np nw = Inr sh"
  shows "splitEqual T names = Inr sh \<or> splitByPercent T np = Inr sh \<or>
         splitByWeights T nw = Inr sh \<or> sh = Map.empty"
proof (cases "m = ''equal''")
  case True
  with assms show ?thesis by (simp add: computeShares_def)
next
  case False
  note ne = this
  show ?thesis
  proof (cases "m = ''percentage''")
    case True
    with assms ne show ?thesis by (simp add: computeShares_def)
  next
    case False
    note np = this
    show ?thesis
    proof (cases "m = ''weights''")
      case True
      with assms ne np show ?thesis by (simp add: computeShares_def)
    next
      case False
      with assms ne np have "Inr Map.empty = (Inr sh :: error + shares)"
        by (simp add: computeShares_def)
      then show ?thesis by auto
    qed
  qed
qed

lemma expenseShares_dom:
  assumes "AddExpense unicodeLower g e = (None, g')" "expenseShares unicodeLower g e = Inr sh"
  shows "dom sh \<subseteq> fst ` set (people g)"
proof -
  from AddExpense_success [OF assms(1)] obtain np nw sh' where
    n1: "normalizeSplitMap unicodeLower (SplitPercentages e) = Inr np" and
    n2: "normalizeSplitMap unicodeLower (SplitWeights e) = Inr nw" and
    np: "allMembers (people g) np" and nw: "allMembers (people g) nw" and
    cs': "computeShares (SplitMethod e) (TotalMicroCents e) (map fst (people g)) np nw = Inr sh'"
    by blast
  from n1 n2 cs' have "expenseShares unicodeLower g e = Inr sh'" by (simp add: expenseShares_def)
  with assms(2) cs' have
    cs: "computeShares (SplitMethod e) (TotalMicroCents e) (map fst (people g)) np nw = Inr sh"
    by simp
  from computeShares_cases [OF cs]
  consider "splitEqual (TotalMicroCents e) (map fst (people g)) = Inr sh"
    | "splitByPercent (TotalMicroCents e) np = Inr sh"
    | "splitByWeights (TotalMicroCents e) nw = Inr sh" | "sh = Map.empty"
    by blast
  then show ?thesis
  proof cases
    case 1
    then show ?thesis by (simp add: splitEqual_dom)
  next
    case 2
    then show ?thesis using allMembers_keys [OF np] by (simp add: splitByPercent_dom)
  next
    case 3
    then have "dom sh \<subseteq> fst ` set nw" by (auto simp: splitByWeights_dom)
    then show ?thesis using allMembers_keys [OF nw] by blast
  next
    case 4
    then show ?thesis by simp
  qed
qed

lemma owers_sum:
  assumes "distinct (map fst (people g))" "dom sh \<subseteq> fst ` set (people g)"
  shows "(\<Sum>k\<leftarrow>owers g p sh. the (sh k)) =
         sum_shares sh - (case sh p of None \<Rightarrow> 0 | Some v \<Rightarrow> v)"
proof -
  have fin: "finite (dom sh)" using assms(2) by (rule finite_subset) simp
  have "distinct (owers g p sh)" using assms(1) by (simp add: owers_def)
  then have "(\<Sum>k\<leftarrow>owers g p sh. the (sh k)) = (\<Sum>k\<in>set (owers g p sh). the (sh k))"
    by (simp add: sum_list_distinct_conv_sum_set)
  also have "set (owers g p sh) = dom sh - {p}" using assms(2) by (auto simp: owers_def)
  also have "(\<Sum>k\<in>dom sh - {p}. the (sh k)) = sum_shares sh - (case sh p of None \<Rightarrow> 0 | Some v \<Rightarrow> v)"
  proof (cases "sh p")
    case None
    then have "dom sh - {p} = dom sh" by auto
    with None show ?thesis by (simp add: sum_shares_def)
  next
    case (Some v)
    then have "p \<in> dom sh" by auto
    with fin have "(\<Sum>k\<in>dom sh. the (sh k)) = the (sh p) + (\<Sum>k\<in>dom sh - {p}. the (sh k))"
      by (simp add: sum.remove)
    with Some show ?thesis by (simp add: sum_shares_def)
  qed
  finally show ?thesis .
qed

lemma usedOf_fold:
  "fold (\<lambda>it used. wrap64 (used + ibase it)) items (wrap64 u) =
   wrap64 (u + sum_list (map ibase items))"
proof (induction items arbitrary: u)
  case Nil
  then show ?case by simp
next
  case (Cons it items)
  have "wrap64 (wrap64 u + ibase it) = wrap64 (u + ibase it)" by (rule wrap64_add_left)
  with Cons.IH [of "u + ibase it"] show ?case by (simp add: add.assoc)
qed

lemma usedOf_sum: "usedOf items = wrap64 (sum_list (map ibase items))"
  using usedOf_fold [of items 0] by (simp add: usedOf_def)

lemma sum_shares_base:
  assumes "distinct (map iname xs)"
  shows "sum_shares (fold (\<lambda>it sh. sh(iname it \<mapsto> ibase it)) xs Map.empty) =
         sum_list (map ibase xs)"
proof -
  let ?sh = "fold (\<lambda>it sh. sh(iname it \<mapsto> ibase it)) xs Map.empty"
  have inj: "inj_on iname (set xs)" and d: "distinct xs"
    using assms by (simp_all add: distinct_map)
  have "sum_shares ?sh = (\<Sum>k\<in>iname ` set xs. the (?sh k))"
    by (simp add: sum_shares_def dom_fold_base)
  also have "\<dots> = (\<Sum>it\<in>set xs. the (?sh (iname it)))"
    using inj by (simp add: sum.reindex)
  also have "\<dots> = (\<Sum>it\<in>set xs. ibase it)"
    by (intro sum.cong refl) (simp add: fold_base_value [OF assms])
  also have "\<dots> = sum_list (map ibase xs)"
    using d by (simp add: sum_list_distinct_conv_sum_set)
  finally show ?thesis .
qed

lemma sum_shares_incr:
  assumes "finite (dom sh)" "sh k = Some v" "int64 (v + 1)"
  shows "sum_shares (incr sh k) = sum_shares sh + 1"
proof -
  have k: "k \<in> dom sh" using assms(2) by auto
  have i: "incr sh k = sh(k \<mapsto> v + 1)" using assms by (simp add: incr_def wrap64_id)
  have "sum_shares (incr sh k) = (\<Sum>x\<in>dom sh. the ((sh(k \<mapsto> v + 1)) x))"
    using k by (simp add: sum_shares_def i insert_absorb)
  also have "\<dots> = the ((sh(k \<mapsto> v + 1)) k) + (\<Sum>x\<in>dom sh - {k}. the ((sh(k \<mapsto> v + 1)) x))"
    using assms(1) k by (simp add: sum.remove)
  also have "(\<Sum>x\<in>dom sh - {k}. the ((sh(k \<mapsto> v + 1)) x)) = (\<Sum>x\<in>dom sh - {k}. the (sh x))"
    by (intro sum.cong refl) simp
  finally have "sum_shares (incr sh k) = v + 1 + (\<Sum>x\<in>dom sh - {k}. the (sh x))" by simp
  moreover have "sum_shares sh = v + (\<Sum>x\<in>dom sh - {k}. the (sh x))"
    using assms(1,2) k by (simp add: sum_shares_def sum.remove)
  ultimately show ?thesis by simp
qed

text \<open>The state of the loop of \<open>distribute\<close> after \<open>j\<close> rounds.\<close>

lemma distribute_loop:
  assumes fin: "finite (dom sh0)"
    and lo: "\<forall>k\<in>dom sh0. 0 \<le> the (sh0 k)"
    and keys: "\<forall>i. h i \<in> dom sh0"
    and bound: "sum_shares sh0 + int j < 2 ^ 63"
  shows "dom (fold (\<lambda>i sh. incr sh (h i)) [0..<j] sh0) = dom sh0 \<and>
         (\<forall>k\<in>dom sh0. the (sh0 k) \<le> the (fold (\<lambda>i sh. incr sh (h i)) [0..<j] sh0 k)) \<and>
         sum_shares (fold (\<lambda>i sh. incr sh (h i)) [0..<j] sh0) = sum_shares sh0 + int j"
  using bound
proof (induction j)
  case 0
  then show ?case by simp
next
  case (Suc j)
  let ?sh = "fold (\<lambda>i sh. incr sh (h i)) [0..<j] sh0"
  from Suc have IH: "dom ?sh = dom sh0" "\<forall>k\<in>dom sh0. the (sh0 k) \<le> the (?sh k)"
    "sum_shares ?sh = sum_shares sh0 + int j"
    by simp_all
  have step: "fold (\<lambda>i sh. incr sh (h i)) [0..<Suc j] sh0 = incr ?sh (h j)" by simp
  have hk: "h j \<in> dom ?sh" using keys IH(1) by simp
  then obtain v where v: "?sh (h j) = Some v" by auto
  have fin': "finite (dom ?sh)" using fin IH(1) by simp
  have nonneg: "\<forall>k\<in>dom ?sh. 0 \<le> the (?sh k)"
    using lo IH(1,2) by force
  have "v = the (?sh (h j))" using v by simp
  also have "\<dots> \<le> (\<Sum>k\<in>dom ?sh. the (?sh k))"
    using fin' hk nonneg by (intro member_le_sum) auto
  also have "\<dots> = sum_shares sh0 + int j" using IH(3) by (simp add: sum_shares_def)
  finally have vle: "v \<le> sum_shares sh0 + int j" .
  have "0 \<le> v" using nonneg hk v by force
  with vle Suc.prems have i64: "int64 (v + 1)" by (simp add: int64_def)
  have s: "sum_shares (incr ?sh (h j)) = sum_shares ?sh + 1"
    by (rule sum_shares_incr [OF fin' v i64])
  have val: "incr ?sh (h j) = ?sh(h j \<mapsto> v + 1)"
    using v i64 by (simp add: incr_def wrap64_id)
  have mono: "\<forall>k\<in>dom sh0. the (sh0 k) \<le> the (incr ?sh (h j) k)"
  proof
    fix k assume k: "k \<in> dom sh0"
    show "the (sh0 k) \<le> the (incr ?sh (h j) k)"
    proof (cases "k = h j")
      case True
      with IH(2) k v have "the (sh0 k) \<le> v" by force
      with True show ?thesis by (simp add: val)
    next
      case False
      with IH(2) k show ?thesis by (simp add: val)
    qed
  qed
  from IH(1) hk s IH(3) mono show ?case
    unfolding step by (simp add: insert_absorb)
qed

lemma distribute_sum:
  assumes dn: "distinct (map iname items)"
    and nonneg: "\<forall>it\<in>set items. 0 \<le> ibase it"
    and le: "sum_list (map ibase items) \<le> T"
    and T: "T < 2 ^ 63"
    and ne: "items \<noteq> []"
  shows "\<exists>sh. distribute T items = Inr sh \<and> dom sh = iname ` set items \<and>
           (\<forall>it\<in>set items. ibase it \<le> the (sh (iname it))) \<and> sum_shares sh = T"
proof -
  define sorted where "sorted = sortSlice itemLess items"
  define sh0 where "sh0 = fold (\<lambda>it sh. sh(iname it \<mapsto> ibase it)) sorted Map.empty"
  define total where "total = sum_list (map ibase items)"
  define h where "h = (\<lambda>i. iname (sorted ! (i mod length sorted)))"
  have ds: "distinct (map iname sorted)" using dn by (simp add: sorted_def distinct_map_sortSlice)
  have sne: "sorted \<noteq> []" using ne by (simp add: sorted_def)
  have total0: "0 \<le> total" unfolding total_def using nonneg by (intro sum_list_nonneg) auto
  have le': "total \<le> T" using le by (simp add: total_def)
  have used: "usedOf items = total"
    using total0 le' T by (simp add: usedOf_sum total_def [symmetric] wrap64_id int64_def)
  have rem: "wrap64 (T - usedOf items) = T - total"
    using total0 le' T by (simp add: used wrap64_id int64_def)
  have d0: "dom sh0 = iname ` set items" by (simp add: sh0_def dom_fold_base sorted_def)
  have v0: "sh0 (iname it) = Some (ibase it)" if "it \<in> set items" for it
    using that ds by (simp add: sh0_def fold_base_value sorted_def)
  have s0: "sum_shares sh0 = total"
  proof -
    have "sum_shares sh0 = sum_list (map ibase sorted)"
      unfolding sh0_def by (rule sum_shares_base [OF ds])
    then show ?thesis by (simp add: sorted_def sum_list_sortSlice total_def)
  qed
  have fin: "finite (dom sh0)" by (simp add: d0)
  have lo: "\<forall>k\<in>dom sh0. 0 \<le> the (sh0 k)" using nonneg v0 by (auto simp: d0)
  have keys: "\<forall>i. h i \<in> dom sh0"
  proof
    fix i
    have "i mod length sorted < length sorted" using sne by simp
    then have "sorted ! (i mod length sorted) \<in> set sorted" by (rule nth_mem)
    then show "h i \<in> dom sh0" by (simp add: h_def d0 sorted_def)
  qed
  have bound: "sum_shares sh0 + int (nat (T - total)) < 2 ^ 63"
    using le' T by (simp add: s0)
  define sh where "sh = fold (\<lambda>i sh. incr sh (h i)) [0..<nat (T - total)] sh0"
  from distribute_loop [OF fin lo keys bound]
  have r: "dom sh = dom sh0" "\<forall>k\<in>dom sh0. the (sh0 k) \<le> the (sh k)"
    "sum_shares sh = sum_shares sh0 + int (nat (T - total))"
    by (simp_all add: sh_def)
  have "distribute T items = Inr sh"
    using sne by (simp add: distribute_def Let_def rem sh_def h_def sorted_def [symmetric] sh0_def)
  moreover have "dom sh = iname ` set items" using r(1) d0 by simp
  moreover have "\<forall>it\<in>set items. ibase it \<le> the (sh (iname it))"
    using r(2) v0 d0 by force
  moreover have "sum_shares sh = T" using r(3) s0 le' by simp
  ultimately show ?thesis by blast
qed

lemmas name_simps = TrimSpace_def asciiSpace_def space2_def space3_def normalizeName_def ToLower_def
  toLowerChar_def isASCII_def
  personNamePattern_def groupNamePattern_def isLetter_def

lemma tripExpense_result:
  "AddExpense unicodeLower tripState tripExpense =
    (None, tripState
      \<lparr>ggraph := \<lparr>graphName = ''trip'', nodes =
         [(''alice'', []),
          (''bob'', [\<lparr>To = ''alice'', Metadata = \<lparr>AmountInMicroCents = 3333333, ExpenseID = 1\<rparr>\<rparr>]),
          (''charlie'', [\<lparr>To = ''alice'', Metadata = \<lparr>AmountInMicroCents = 3333333, ExpenseID = 1\<rparr>\<rparr>])]\<rparr>,
       expenses := [(1, tripExpense\<lparr>ID := 1\<rparr>)], expenseIdCounter := 1\<rparr>)"
  by (simp add: AddExpense_def tripState_def tripExpense_def name_simps validateSplitMethod_def
     normalizeSplitMap_def allMembers_def computeShares_def splitEqual_def Let_def
     signed_divide_int_def signed_modulo_int_def wrap64_def checkSync_def addEdge_def)

text \<open>
  Claim C5. Whenever \<open>AddExpense\<close> returns an error, the group is the one before the
  call: the numbers of members, of expenses and of edges are unchanged.
\<close>

theorem AddExpense_atomic:
  "fst (AddExpense unicodeLower g e) \<noteq> None \<longrightarrow>
     length (people (snd (AddExpense unicodeLower g e))) = length (people g) \<and>
     length (expenses (snd (AddExpense unicodeLower g e))) = length (expenses g) \<and>
     edgeCount (snd (AddExpense unicodeLower g e)) = edgeCount g \<and>
     snd (AddExpense unicodeLower g e) = g"
  using AddExpense_error_unchanged [of unicodeLower g e] by simp

theorem AddExpense_atomic_witness:
  "fst (AddExpense identityTable tripState (tripExpense\<lparr>PaidBy := ''Dave''\<rparr>)) = Some UnknownPayer \<and>
   length (people (snd (AddExpense identityTable tripState (tripExpense\<lparr>PaidBy := ''Dave''\<rparr>)))) = 3 \<and>
   length (expenses (snd (AddExpense identityTable tripState (tripExpense\<lparr>PaidBy := ''Dave''\<rparr>)))) = 0 \<and>
   edgeCount (snd (AddExpense identityTable tripState (tripExpense\<lparr>PaidBy := ''Dave''\<rparr>))) = 0"
proof -
  have "fst (AddExpense identityTable tripState (tripExpense\<lparr>PaidBy := ''Dave''\<rparr>)) = Some UnknownPayer"
    by (simp add: AddExpense_def tripState_def tripExpense_def name_simps validateSplitMethod_def)
  moreover have "length (people tripState) = 3" "length (expenses tripState) = 0"
    "edgeCount tripState = 0"
    by (simp_all add: tripState_def edgeCount_def allEdges_def)
  ultimately show ?thesis
    using AddExpense_atomic [of identityTable tripState "tripExpense\<lparr>PaidBy := ''Dave''\<rparr>"] by simp
qed

section \<open>The scenario group and the edges of an expense\<close>

lemma splitEqual_sum:
  assumes "splitEqual T names = Inr sh" "0 \<le> T" "int64 T" "distinct names"
  shows "sum_shares sh = T"
proof -
  from assms(1) have "2 \<le> length names"
    by (auto simp: splitEqual_def Let_def split: if_splits)
  with splitEqual_shares [of names T] assms show ?thesis
    by (auto simp: int64_def)
qed

text \<open>
  Claim C4, amended. The payer never gets an edge, so the edges of an expense do not add
  up to its total but to the shares of the other members. For every expense that
  \<open>AddExpense\<close> ingests (the group's maps well formed, and no edge carrying the new id
  beforehand), the sum of the amounts of the edges with the new id equals the sum of the
  computed shares of the members other than the payer, which is the sum of all shares
  minus the payer's own share; for an equal split it is the total minus the payer's
  share.
\<close>

theorem expense_edge_total:
  assumes "AddExpense unicodeLower g e = (None, g')"
    and "distinct (map fst (people g))"
    and "distinct (map fst (nodes (ggraph g)))"
    and "\<forall>x\<in>set (allEdges (ggraph g)). ExpenseID (Metadata x) \<noteq> wrap64 (expenseIdCounter g + 1)"
  shows "\<exists>sh. expenseShares unicodeLower g e = Inr sh \<and>
     expenseEdgeTotal g' (expenseIdCounter g') =
       (\<Sum>k\<leftarrow>owers g (normalizeName unicodeLower (PaidBy e)) sh. the (sh k)) \<and>
     expenseEdgeTotal g' (expenseIdCounter g') =
       sum_shares sh - (case sh (normalizeName unicodeLower (PaidBy e)) of None \<Rightarrow> 0 | Some v \<Rightarrow> v) \<and>
     (SplitMethod e = ''equal'' \<and> int64 (TotalMicroCents e) \<longrightarrow>
        (\<exists>v. sh (normalizeName unicodeLower (PaidBy e)) = Some v \<and>
           expenseEdgeTotal g' (expenseIdCounter g') = TotalMicroCents e - v))"
proof -
  let ?p = "normalizeName unicodeLower (PaidBy e)"
  from expense_edges_lemma [OF assms(1,3,4)] obtain sh where
    sh: "expenseShares unicodeLower g e = Inr sh" and
    t: "expenseEdgeTotal g' (expenseIdCounter g') = (\<Sum>k\<leftarrow>owers g ?p sh. the (sh k))"
    by blast
  have dom: "dom sh \<subseteq> fst ` set (people g)" by (rule expenseShares_dom [OF assms(1) sh])
  note os = owers_sum [OF assms(2) dom, of ?p]
  have eq: "\<exists>v. sh ?p = Some v \<and> expenseEdgeTotal g' (expenseIdCounter g') = TotalMicroCents e - v"
    if m: "SplitMethod e = ''equal''" and i: "int64 (TotalMicroCents e)"
  proof -
    from AddExpense_success [OF assms(1)] obtain np nw sh' where
      n1: "normalizeSplitMap unicodeLower (SplitPercentages e) = Inr np" and
      n2: "normalizeSplitMap unicodeLower (SplitWeights e) = Inr nw" and
      cs: "computeShares (SplitMethod e) (TotalMicroCents e) (map fst (people g)) np nw = Inr sh'" and
      pos: "0 < TotalMicroCents e" and
      payer: "map_of (people g) ?p \<noteq> None"
      by blast
    from n1 n2 cs sh have "sh' = sh" by (simp add: expenseShares_def)
    with cs m have se: "splitEqual (TotalMicroCents e) (map fst (people g)) = Inr sh"
      by (simp add: computeShares_def)
    then have s: "sum_shares sh = TotalMicroCents e"
      using pos i assms(2) by (intro splitEqual_sum) simp_all
    from payer have "?p \<in> set (map fst (people g))"
      by (metis domIff dom_map_of_conv_image_fst set_map)
    with se have "?p \<in> dom sh" by (simp add: splitEqual_dom)
    then obtain v where v: "sh ?p = Some v" by auto
    with t os s show ?thesis by simp
  qed
  from sh t os eq show ?thesis by auto
qed

lemma tripState_wf:
  "distinct (map fst (people tripState))" "distinct (map fst (nodes (ggraph tripState)))"
  "\<forall>x\<in>set (allEdges (ggraph tripState)). ExpenseID (Metadata x) \<noteq> wrap64 (expenseIdCounter tripState + 1)"
  by (simp_all add: tripState_def allEdges_def)

theorem expense_edge_total_witness:
  "fst (AddExpense identityTable tripState tripExpense) = None \<and>
   distinct (map fst (people tripState)) \<and>
   distinct (map fst (nodes (ggraph tripState))) \<and>
   SplitMethod tripExpense = ''equal'' \<and> int64 (TotalMicroCents tripExpense) \<and>
   (\<exists>sh. expenseShares identityTable tripState tripExpense = Inr sh \<and> sh ''alice'' = Some 3333334 \<and>
      sum_shares sh = 10000000 \<and>
      expenseEdgeTotal (snd (AddExpense identityTable tripState tripExpense)) 1 = 10000000 - 3333334)"
proof -
  have ok: "AddExpense identityTable tripState tripExpense = (None, snd (AddExpense identityTable tripState tripExpense))"
    by (simp add: tripExpense_result)
  have c: "expenseIdCounter (snd (AddExpense identityTable tripState tripExpense)) = 1"
    by (simp add: tripExpense_result)
  have m: "SplitMethod tripExpense = ''equal''" "int64 (TotalMicroCents tripExpense)"
    "normalizeName identityTable (PaidBy tripExpense) = ''alice''" "TotalMicroCents tripExpense = 10000000"
    by (simp_all add: tripExpense_def int64_def name_simps)
  have sh: "expenseShares identityTable tripState tripExpense =
      Inr [''alice'' \<mapsto> 3333334, ''bob'' \<mapsto> 3333333, ''charlie'' \<mapsto> 3333333]"
    by (simp add: expenseShares_def tripState_def tripExpense_def normalizeSplitMap_def
        computeShares_def splitEqual_def Let_def signed_divide_int_def signed_modulo_int_def wrap64_def)
  from expense_edge_total [OF ok tripState_wf] obtain sh' where
    "expenseShares identityTable tripState tripExpense = Inr sh'"
    "expenseEdgeTotal (snd (AddExpense identityTable tripState tripExpense)) 1 =
       sum_shares sh' - (case sh' ''alice'' of None \<Rightarrow> 0 | Some v \<Rightarrow> v)"
    unfolding c m by blast
  with sh have "expenseEdgeTotal (snd (AddExpense identityTable tripState tripExpense)) 1 = 10000000 - 3333334"
    by (simp add: sum_shares_def)
  with sh m tripState_wf show ?thesis
    by (simp add: tripExpense_result sum_shares_def)
qed

text \<open>
  Claim C4 as stated fails on the first scenario of the specification: the expense of
  10,000,000 micro-cents that Alice pays for Alice, Bob and Charlie produces two edges
  of 3,333,333 each, which add up to 6,666,666.
\<close>

theorem expense_edge_total_counterexample:
  "fst (AddExpense identityTable tripState tripExpense) = None \<and>
   TotalMicroCents tripExpense = 10000000 \<and>
   expenseEdgeTotal (snd (AddExpense identityTable tripState tripExpense)) 1 = 6666666 \<and>
   (6666666 :: int) \<noteq> 10000000"
  by (simp add: tripExpense_result expenseEdgeTotal_def allEdges_def) (simp add: tripExpense_def)

text \<open>
  Claim C6, amended. In the group "trip" with the members Alice, Bob and Charlie, the
  equal split of 10,000,000 micro-cents gives shares that add up to 10,000,000; there is
  one unit left over, so only the smallest key, \<open>alice\<close>, receives 3,333,334, and \<open>bob\<close>
  and \<open>charlie\<close> receive 3,333,333 each.
\<close>

theorem trip_equal_split:
  "tripGroup unicodeLower = Inr tripState \<and>
   splitEqual 10000000 (map fst (people tripState)) =
     Inr [''alice'' \<mapsto> 3333334, ''bob'' \<mapsto> 3333333, ''charlie'' \<mapsto> 3333333] \<and>
   sum_shares [''alice'' \<mapsto> 3333334, ''bob'' \<mapsto> 3333333, ''charlie'' \<mapsto> 3333333] = 10000000"
  by (simp add: tripGroup_def tripState_def bindE_def NewGroup_def AddPerson_def addNode_def
      newGraph_def name_simps splitEqual_def Let_def signed_divide_int_def signed_modulo_int_def
      wrap64_def sum_shares_def)

text \<open>
  Claim C6 as stated gives 3,333,334 to two members and 3,333,332 to the third. The code
  gives \<open>bob\<close>, the second smallest key, 3,333,333, and no member 3,333,332.
\<close>

theorem trip_equal_split_counterexample:
  "splitEqual 10000000 (map fst (people tripState)) =
     Inr [''alice'' \<mapsto> 3333334, ''bob'' \<mapsto> 3333333, ''charlie'' \<mapsto> 3333333] \<and>
   [''alice'' \<mapsto> 3333334, ''bob'' \<mapsto> 3333333, ''charlie'' \<mapsto> (3333333::int)] ''bob'' \<noteq> Some 3333334 \<and>
   [''alice'' \<mapsto> 3333334, ''bob'' \<mapsto> 3333333, ''charlie'' \<mapsto> (3333333::int)] ''charlie'' \<noteq> Some 3333332"
  by (simp add: tripState_def splitEqual_def Let_def signed_divide_int_def signed_modulo_int_def
      wrap64_def)

section \<open>Bounds on rounded binary64 results\<close>

lemma round_ne_abs_le:
  assumes "\<bar>x\<bar> \<le> of_int n"
  shows "\<bar>round_ne x\<bar> \<le> n"
proof -
  have "round_ne x \<le> round_ne (of_int n)" using assms by (intro round_ne_mono) simp
  moreover have "round_ne (of_int (- n)) \<le> round_ne x" using assms by (intro round_ne_mono) simp
  ultimately show ?thesis by (simp only: round_ne_of_int)
qed

lemma rnd_idem: "rnd (rnd x) = rnd x"
proof (cases "x = 0")
  case True
  then show ?thesis by simp
next
  case False
  define e where "e = lastPlace x"
  define n where "n = round_ne (x / 2 powi e)"
  have r: "rnd x = of_int n * 2 powi e" using False by (simp add: rnd_alt n_def e_def)
  have e: "- 1074 \<le> e" by (simp add: e_def lastPlace_def)
  have "\<bar>x\<bar> < 2 powi (binade x + 1)" using binade_bounds(2) [OF False] .
  also have "\<dots> \<le> 2 powi (e + 53)"
    by (intro power_int_increasing) (simp_all add: e_def lastPlace_def)
  also have "\<dots> = 2 powi e * 2 ^ 53" by (simp add: power_int_add)
  finally have "\<bar>x\<bar> / 2 powi e \<le> 2 ^ 53" by (simp add: field_simps)
  then have "\<bar>x / 2 powi e\<bar> \<le> of_int (2 ^ 53)" by simp
  then have n53: "\<bar>n\<bar> \<le> 2 ^ 53" unfolding n_def by (rule round_ne_abs_le)
  show ?thesis
  proof (cases "\<bar>n\<bar> < 2 ^ 53")
    case True
    then show ?thesis unfolding r using e by (rule rnd_exact)
  next
    case False
    with n53 have "\<bar>n\<bar> = 2 ^ 53" by simp
    then consider "n = 2 ^ 53" | "n = - (2 ^ 53)" by (auto simp: abs_if split: if_splits)
    then show ?thesis
    proof cases
      case 1
      have "rnd x = of_int (2 ^ 52) * 2 powi (e + 1)"
        unfolding r 1 by (simp add: power_int_add)
      moreover have "rnd (of_int (2 ^ 52) * 2 powi (e + 1)) = of_int (2 ^ 52) * 2 powi (e + 1)"
        using e by (intro rnd_exact) simp_all
      ultimately show ?thesis by (simp only:)
    next
      case 2
      have "rnd x = of_int (- (2 ^ 52)) * 2 powi (e + 1)"
        unfolding r 2 by (simp add: power_int_add)
      moreover have "rnd (of_int (- (2 ^ 52)) * 2 powi (e + 1)) = of_int (- (2 ^ 52)) * 2 powi (e + 1)"
        using e by (intro rnd_exact) simp_all
      ultimately show ?thesis by (simp only:)
    qed
  qed
qed

text \<open>Rounding a number between two representable bounds.\<close>

lemma round64_between:
  assumes "lo \<le> x" "x \<le> hi" "rnd lo = lo" "rnd hi = hi" "\<bar>lo\<bar> \<le> 2 ^ 1023" "\<bar>hi\<bar> \<le> 2 ^ 1023"
  shows "round64 x = Finite (rnd x)" "lo \<le> rnd x" "rnd x \<le> hi"
proof -
  have "\<bar>x\<bar> \<le> 2 ^ 1023" using assms by (simp add: abs_le_iff)
  then show "round64 x = Finite (rnd x)" by (rule round64_Finite)
  show "lo \<le> rnd x" using rnd_mono [OF assms(1)] assms(3) by simp
  show "rnd x \<le> hi" using rnd_mono [OF assms(2)] assms(4) by simp
qed

lemma rnd_1 [simp]: "rnd 1 = 1"
  using rnd_of_int [of 1] by simp

lemma rnd_pow2_nat: "rnd (2 ^ n) = 2 ^ n"
  using rnd_pow2 [of "int n"] by simp

lemma nonneg_item_base:
  assumes "0 \<le> x" "x \<le> 2 ^ 62"
  shows "ibase (mkItem nm (Finite x)) = \<lfloor>x\<rfloor>" "0 \<le> ibase (mkItem nm (Finite x))"
proof -
  have f0: "0 \<le> \<lfloor>x\<rfloor>" using assms(1) by simp
  have "\<lfloor>x\<rfloor> \<le> \<lfloor>(2::real) ^ 62\<rfloor>" using assms(2) by (rule floor_mono)
  then have f1: "\<lfloor>x\<rfloor> \<le> 2 ^ 62" by simp
  have "truncReal (of_int \<lfloor>x\<rfloor>) = \<lfloor>x\<rfloor>" by (simp add: truncReal_def)
  moreover have "int64 \<lfloor>x\<rfloor>" using f0 f1 by (simp add: int64_def)
  ultimately show "ibase (mkItem nm (Finite x)) = \<lfloor>x\<rfloor>" by (simp add: mkItem_def Let_def)
  with f0 show "0 \<le> ibase (mkItem nm (Finite x))" by simp
qed

lemma float64_of_total:
  assumes "0 < T" "T \<le> 2 ^ 62"
  shows "\<exists>t. float64_of_int64 T = Finite t \<and> 0 \<le> t \<and> t \<le> 2 ^ 62"
proof -
  have "(0::real) \<le> of_int T" using assms(1) by simp
  moreover have "real_of_int T \<le> 2 ^ 62"
    using assms(2) of_int_le_iff [of T "2 ^ 62", where ?'a = real] by simp
  moreover have "rnd (2 ^ 62) = 2 ^ 62" by (rule rnd_pow2_nat)
  ultimately show ?thesis
    using round64_between [of 0 "of_int T" "2 ^ 62"]
    by (simp add: float64_of_int64_def)
qed

lemma scaled_share:
  assumes "0 \<le> q" "q \<le> 1" "0 \<le> t" "t \<le> 2 ^ 62"
  shows "\<exists>x. fmul (Finite q) (Finite t) = Finite x \<and> 0 \<le> x \<and> x \<le> 2 ^ 62"
proof -
  have "0 \<le> q * t" using assms by simp
  moreover have "q * t \<le> 1 * 2 ^ 62" using assms by (intro mult_mono) simp_all
  moreover have "rnd (2 ^ 62) = 2 ^ 62" by (rule rnd_pow2_nat)
  ultimately show ?thesis
    using round64_between [of 0 "q * t" "2 ^ 62"] by simp
qed

lemma percent_quotient:
  assumes "0 \<le> r" "r \<le> 100"
  shows "\<exists>q. fdiv (Finite r) (Finite 100) = Finite q \<and> 0 \<le> q \<and> q \<le> 1"
proof -
  have "0 \<le> r / 100" "r / 100 \<le> 1" using assms by simp_all
  then show ?thesis using round64_between [of 0 "r / 100" 1] by simp
qed

lemma percentItems_nonneg:
  assumes T: "0 < T" "T \<le> 2 ^ 62"
    and p: "\<forall>(k, p)\<in>set perc. \<exists>r. p = Finite r \<and> 0 \<le> r \<and> r \<le> 100"
  shows "\<forall>it\<in>set (percentItems T perc). 0 \<le> ibase it"
proof
  fix it assume "it \<in> set (percentItems T perc)"
  then obtain k p where kp: "(k, p) \<in> set perc"
    and it: "it = mkItem k (fmul (fdiv p (Finite 100)) (float64_of_int64 T))"
    by (auto simp: percentItems_def)
  from p kp obtain r where r: "p = Finite r" "0 \<le> r" "r \<le> 100" by auto
  from percent_quotient [OF r(2,3)] obtain q where
    q: "fdiv (Finite r) (Finite 100) = Finite q" "0 \<le> q" "q \<le> 1" by blast
  from float64_of_total [OF T] obtain t where
    t: "float64_of_int64 T = Finite t" "0 \<le> t" "t \<le> 2 ^ 62" by blast
  from scaled_share [OF q(2,3) t(2,3)] obtain x where
    x: "fmul (Finite q) (Finite t) = Finite x" "0 \<le> x" "x \<le> 2 ^ 62" by blast
  show "0 \<le> ibase it"
    unfolding it r(1) q(1) t(1) x(1) by (rule nonneg_item_base(2) [OF x(2,3)])
qed

section \<open>Percentage shares\<close>

lemmas float_eval = round64_def binade_def compute_bitlen round_ne_def float64_of_int64_def
  fsub_def fgt_def feq_def fle_def truncReal_def int64_def signedInf_def

lemma percentSumMismatch_Nil: "percentSumMismatch []"
  by (simp add: percentSumMismatch_def fsum_def float_eval)

lemma distribute_nonempty: "items \<noteq> [] \<Longrightarrow> \<exists>sh. distribute T items = Inr sh"
  by (simp add: distribute_def Let_def)

lemma splitByPercent_cases:
  "splitByPercent T perc =
     (if percentSumMismatch perc then Inl PercentageSumMismatch
      else distribute T (percentItems T perc))"
  by (simp add: splitByPercent_def percentSumMismatch_def Let_def)

lemma splitByPercent_ok:
  assumes "\<not> percentSumMismatch perc"
  shows "\<exists>sh. splitByPercent T perc = Inr sh"
proof -
  from assms have "perc \<noteq> []" using percentSumMismatch_Nil by auto
  then have "percentItems T perc \<noteq> []" by (simp add: percentItems_def)
  from distribute_nonempty [OF this] assms show ?thesis by (simp add: splitByPercent_cases)
qed

lemma overPercent_sum: "fsum (map snd overPercent) = Finite (12801 / 128)"
  by (simp add: overPercent_def fsum_def float_eval)

lemma overPercent_ok: "\<not> percentSumMismatch overPercent"
  by (simp add: percentSumMismatch_def overPercent_sum) (simp add: float_eval)

lemma overPercent_items:
  "percentItems 10000000 overPercent =
     [\<lparr>iname = ''alice'', iraw = Finite (500078125 / 100), ibase = 5000781, ifrac = Finite (1 / 4)\<rparr>,
      \<lparr>iname = ''bob'', iraw = Finite 5000000, ibase = 5000000, ifrac = Finite 0\<rparr>]"
  by (simp add: overPercent_def percentItems_def mkItem_def float_eval)

lemma overPercent_shares:
  "splitByPercent 10000000 overPercent = Inr [''alice'' \<mapsto> 5000781, ''bob'' \<mapsto> 5000000]"
proof -
  let ?items = "percentItems 10000000 overPercent"
  have u: "usedOf ?items = 10000781"
    by (simp add: overPercent_items usedOf_def wrap64_def)
  have s: "sortSlice itemLess ?items = ?items"
    by (simp add: overPercent_items sortSlice_def itemLess_def float_eval)
  have "distribute 10000000 ?items = Inr [''alice'' \<mapsto> 5000781, ''bob'' \<mapsto> 5000000]"
    by (simp add: distribute_def u s wrap64_def) (simp add: overPercent_items)
  with overPercent_ok show ?thesis by (simp add: splitByPercent_cases)
qed

lemma negPercent_sum: "fsum (map snd negPercent) = Finite 100"
  by (simp add: negPercent_def fsum_def float_eval)

lemma negPercent_ok: "\<not> percentSumMismatch negPercent"
  by (simp add: percentSumMismatch_def negPercent_sum) (simp add: float_eval)

lemma negPercent_items:
  "percentItems 10000000 negPercent =
     [\<lparr>iname = ''alice'', iraw = Finite 15000000, ibase = 15000000, ifrac = Finite 0\<rparr>,
      \<lparr>iname = ''bob'', iraw = Finite (- 5000000), ibase = - 5000000, ifrac = Finite 0\<rparr>]"
  by (simp add: negPercent_def percentItems_def mkItem_def float_eval)

lemma negPercent_shares:
  "splitByPercent 10000000 negPercent = Inr [''alice'' \<mapsto> 15000000, ''bob'' \<mapsto> - 5000000]"
proof -
  let ?items = "percentItems 10000000 negPercent"
  have u: "usedOf ?items = 10000000"
    by (simp add: negPercent_items usedOf_def wrap64_def)
  have s: "sortSlice itemLess ?items = ?items"
    by (simp add: negPercent_items sortSlice_def itemLess_def float_eval)
  have "distribute 10000000 ?items = Inr [''alice'' \<mapsto> 15000000, ''bob'' \<mapsto> - 5000000]"
    by (simp add: distribute_def u s wrap64_def) (simp add: negPercent_items)
  with negPercent_ok show ?thesis by (simp add: splitByPercent_cases)
qed

text \<open>
  Claim C10. \<open>splitByPercent\<close> fails, with \<open>PercentageSumMismatch\<close>, exactly when the
  (binary64) sum of the percentages differs from 100 by more than 0.01; in every other
  case it returns a share map. It checks no single entry: for the percentages 150 and
  -50, which sum to 100, it returns the shares 15,000,000 and -5,000,000 of the total
  10,000,000.
\<close>

theorem splitByPercent_error_iff:
  "(percentSumMismatch perc \<longleftrightarrow> splitByPercent T perc = Inl PercentageSumMismatch) \<and>
   (percentSumMismatch perc \<longleftrightarrow> (\<exists>err. splitByPercent T perc = Inl err)) \<and>
   (\<not> percentSumMismatch perc \<longleftrightarrow> (\<exists>sh. splitByPercent T perc = Inr sh)) \<and>
   (''bob'', Finite (- 50)) \<in> set negPercent \<and>
   fsum (map snd negPercent) = Finite 100 \<and>
   splitByPercent 10000000 negPercent = Inr [''alice'' \<mapsto> 15000000, ''bob'' \<mapsto> - 5000000]"
proof -
  have "splitByPercent T perc = Inl PercentageSumMismatch" if "percentSumMismatch perc"
    using that by (simp add: splitByPercent_cases)
  moreover have "\<exists>sh. splitByPercent T perc = Inr sh" if "\<not> percentSumMismatch perc"
    using that by (rule splitByPercent_ok)
  ultimately have "(percentSumMismatch perc \<longleftrightarrow> splitByPercent T perc = Inl PercentageSumMismatch)"
    "(percentSumMismatch perc \<longleftrightarrow> (\<exists>err. splitByPercent T perc = Inl err))"
    "(\<not> percentSumMismatch perc \<longleftrightarrow> (\<exists>sh. splitByPercent T perc = Inr sh))"
    by (cases "percentSumMismatch perc"; force)+
  moreover have "(''bob'', Finite (- 50)) \<in> set negPercent" by (simp add: negPercent_def)
  ultimately show ?thesis using negPercent_sum negPercent_shares by blast
qed

lemma splitByPercent_shares_lemma:
  assumes T: "0 < T" "T \<le> 2 ^ 62"
    and d: "distinct (map fst perc)"
    and p: "\<forall>(k, p)\<in>set perc. \<exists>r. p = Finite r \<and> 0 \<le> r \<and> r \<le> 100"
    and ok: "\<not> percentSumMismatch perc"
    and fl: "sum_list (map ibase (percentItems T perc)) \<le> T"
  shows "\<exists>sh. splitByPercent T perc = Inr sh \<and> dom sh = fst ` set perc \<and>
           (\<forall>k\<in>dom sh. 0 \<le> the (sh k)) \<and> sum_shares sh = T"
proof -
  let ?items = "percentItems T perc"
  have dn: "distinct (map iname ?items)" using d by simp
  have nn: "\<forall>it\<in>set ?items. 0 \<le> ibase it" by (rule percentItems_nonneg [OF T p])
  from ok have "perc \<noteq> []" using percentSumMismatch_Nil by auto
  then have ne: "?items \<noteq> []" by (simp add: percentItems_def)
  have T63: "T < 2 ^ 63" using T(2) by simp
  from distribute_sum [OF dn nn fl T63 ne] obtain sh where
    sh: "distribute T ?items = Inr sh" "dom sh = iname ` set ?items"
      "\<forall>it\<in>set ?items. ibase it \<le> the (sh (iname it))" "sum_shares sh = T"
    by blast
  have "splitByPercent T perc = Inr sh" using ok sh(1) by (simp add: splitByPercent_cases)
  moreover from this have "dom sh = fst ` set perc" by (rule splitByPercent_dom)
  moreover have "\<forall>k\<in>dom sh. 0 \<le> the (sh k)"
  proof
    fix k assume "k \<in> dom sh"
    then obtain it where it: "it \<in> set ?items" "k = iname it" using sh(2) by auto
    with nn sh(3) show "0 \<le> the (sh k)" by force
  qed
  ultimately show ?thesis using sh(4) by blast
qed

section \<open>Weighted shares\<close>

lemma round64_Finite_rnd: "round64 x = Finite y \<Longrightarrow> y = rnd x"
  by (simp add: round64_rnd split: if_splits)

lemma validWeight_cases:
  assumes "validWeight v"
  obtains r where "v = Finite r" "0 \<le> r" "rnd r = r"
proof (cases v)
  case (Finite r)
  with assms have "0 \<le> r" "round64 r = Finite r" by (simp_all add: validWeight_def)
  with Finite that round64_Finite_rnd [of r r] show ?thesis by simp
qed (use assms in \<open>simp_all add: validWeight_def\<close>)

lemma sumWeights_no_negative:
  "\<forall>v\<in>set vs. \<not> flt v (Finite 0) \<Longrightarrow> sumWeights s vs = Inr (foldl fadd s vs)"
  by (induction vs arbitrary: s) simp_all

lemma sumWeights_negative:
  "\<exists>v\<in>set vs. flt v (Finite 0) \<Longrightarrow> sumWeights s vs = Inl NegativeWeight"
  by (induction vs arbitrary: s) auto

lemma round64_pos_cases:
  assumes "0 \<le> x"
  shows "round64 x = PosInf \<or> round64 x = Finite (rnd x)"
  using assms by (auto simp: round64_rnd)

lemma fadd_sumAtLeast:
  assumes "sumAtLeast s b" "0 \<le> b" "validWeight v"
  shows "sumAtLeast (fadd s v) b" and "\<And>r. v = Finite r \<Longrightarrow> sumAtLeast (fadd s v) r"
proof -
  from assms(3) obtain r where r: "v = Finite r" "0 \<le> r" "rnd r = r" by (rule validWeight_cases)
  have both: "sumAtLeast (fadd s v) b \<and> sumAtLeast (fadd s v) r"
  proof (cases s)
    case (Finite a)
    with assms(1) have a: "b \<le> a" "rnd a = a" by (simp_all add: sumAtLeast_def)
    have "0 \<le> a + r" using a(1) assms(2) r(2) by simp
    from round64_pos_cases [OF this] show ?thesis
    proof
      assume "round64 (a + r) = PosInf"
      with Finite r(1) show ?thesis by (simp add: sumAtLeast_def)
    next
      assume f: "round64 (a + r) = Finite (rnd (a + r))"
      have "rnd a \<le> rnd (a + r)" using r(2) by (intro rnd_mono) simp
      moreover have "rnd r \<le> rnd (a + r)" using a(1) assms(2) by (intro rnd_mono) simp
      ultimately show ?thesis using Finite r f a by (simp add: sumAtLeast_def rnd_idem)
    qed
  next
    case PosInf
    with r(1) show ?thesis by (simp add: sumAtLeast_def)
  qed (use assms(1) in \<open>simp_all add: sumAtLeast_def\<close>)
  from both show "sumAtLeast (fadd s v) b" by simp
  from both r(1) show "\<And>r. v = Finite r \<Longrightarrow> sumAtLeast (fadd s v) r" by simp
qed

lemma foldl_sumAtLeast:
  assumes "sumAtLeast s b" "0 \<le> b" "\<forall>v\<in>set vs. validWeight v"
  shows "sumAtLeast (foldl fadd s vs) b \<and>
         (\<forall>r. Finite r \<in> set vs \<longrightarrow> sumAtLeast (foldl fadd s vs) r)"
  using assms
proof (induction vs arbitrary: s b)
  case Nil
  then show ?case by simp
next
  case (Cons v vs)
  from Cons.prems have v: "validWeight v" and vs: "\<forall>v\<in>set vs. validWeight v" by simp_all
  from v obtain r where r: "v = Finite r" "0 \<le> r" "rnd r = r" by (rule validWeight_cases)
  note s1 = fadd_sumAtLeast(1) [OF Cons.prems(1,2) v]
  note s2 = fadd_sumAtLeast(2) [OF Cons.prems(1,2) v r(1)]
  from Cons.IH [OF s1 Cons.prems(2) vs] Cons.IH [OF s2 r(2) vs] r(1)
  show ?case by auto
qed

lemma weights_sum:
  assumes "\<forall>v\<in>set vs. validWeight v"
  shows "sumWeights (Finite 0) vs = Inr (fsum vs)"
    and "sumAtLeast (fsum vs) 0"
    and "\<And>r. Finite r \<in> set vs \<Longrightarrow> sumAtLeast (fsum vs) r"
proof -
  have nn: "\<forall>v\<in>set vs. \<not> flt v (Finite 0)"
  proof
    fix v assume "v \<in> set vs"
    with assms have "validWeight v" by simp
    then obtain r where "v = Finite r" "0 \<le> r" by (rule validWeight_cases)
    then show "\<not> flt v (Finite 0)" by simp
  qed
  then show "sumWeights (Finite 0) vs = Inr (fsum vs)"
    by (simp add: sumWeights_no_negative fsum_def)
  have "sumAtLeast (Finite 0) 0" by (simp add: sumAtLeast_def)
  from foldl_sumAtLeast [OF this _ assms]
  show "sumAtLeast (fsum vs) 0" and "\<And>r. Finite r \<in> set vs \<Longrightarrow> sumAtLeast (fsum vs) r"
    by (simp_all add: fsum_def)
qed

lemma weight_quotient:
  assumes "0 \<le> r" "sumAtLeast s r" "flt (Finite 0) s"
  shows "\<exists>q. fdiv (Finite r) s = Finite q \<and> 0 \<le> q \<and> q \<le> 1"
proof (cases s)
  case (Finite a)
  with assms have a: "r \<le> a" "0 < a" by (simp_all add: sumAtLeast_def)
  then have "0 \<le> r / a" "r / a \<le> 1" using assms(1) by simp_all
  then show ?thesis using round64_between [of 0 "r / a" 1] a Finite by simp
next
  case PosInf
  then show ?thesis by simp
qed (use assms in \<open>simp_all add: sumAtLeast_def\<close>)

lemma weightItems_nonneg:
  assumes T: "0 < T" "T \<le> 2 ^ 62"
    and w: "\<forall>(k, v)\<in>set w. validWeight v"
    and pos: "flt (Finite 0) (fsum (map snd w))"
  shows "\<forall>it\<in>set (weightItems T (fsum (map snd w)) w). 0 \<le> ibase it"
proof
  let ?s = "fsum (map snd w)"
  fix it assume "it \<in> set (weightItems T ?s w)"
  then obtain k v where kv: "(k, v) \<in> set w"
    and it: "it = mkItem k (fmul (fdiv v ?s) (float64_of_int64 T))"
    by (auto simp: weightItems_def)
  have vw: "\<forall>v\<in>set (map snd w). validWeight v" using w by auto
  from w kv have "validWeight v" by auto
  then obtain r where r: "v = Finite r" "0 \<le> r" by (rule validWeight_cases)
  from kv r(1) have "Finite r \<in> set (map snd w)" by force
  then have "sumAtLeast ?s r" by (rule weights_sum(3) [OF vw])
  from weight_quotient [OF r(2) this pos] obtain q where
    q: "fdiv (Finite r) ?s = Finite q" "0 \<le> q" "q \<le> 1" by blast
  from float64_of_total [OF T] obtain t where
    t: "float64_of_int64 T = Finite t" "0 \<le> t" "t \<le> 2 ^ 62" by blast
  from scaled_share [OF q(2,3) t(2,3)] obtain x where
    x: "fmul (Finite q) (Finite t) = Finite x" "0 \<le> x" "x \<le> 2 ^ 62" by blast
  show "0 \<le> ibase it"
    unfolding it r(1) q(1) t(1) x(1) by (rule nonneg_item_base(2) [OF x(2,3)])
qed

lemma sumAtLeast_sign:
  assumes "sumAtLeast s 0"
  shows "fle s (Finite 0) \<longleftrightarrow> \<not> flt (Finite 0) s"
  using assms by (cases s) (auto simp: sumAtLeast_def fle_def feq_def)

lemma positive_sum_nonempty:
  assumes "\<forall>(k, v)\<in>set w. validWeight v" "flt (Finite 0) (fsum (map snd w))"
  shows "filter (\<lambda>(nm, weight). \<not> feq weight (Finite 0)) w \<noteq> []"
proof
  assume e: "filter (\<lambda>(nm, weight). \<not> feq weight (Finite 0)) w = []"
  have z: "\<forall>v\<in>set (map snd w). v = Finite 0"
  proof
    fix v assume "v \<in> set (map snd w)"
    then obtain k where kv: "(k, v) \<in> set w" by auto
    with e have "feq v (Finite 0)" by (auto simp: filter_empty_conv)
    then show "v = Finite 0" by (simp add: feq_def)
  qed
  have "foldl fadd (Finite 0) vs = Finite 0" if "\<forall>v\<in>set vs. v = Finite 0" for vs
    using that by (induction vs) (simp_all add: round64_def)
  with z have "fsum (map snd w) = Finite 0" by (simp add: fsum_def)
  with assms(2) show False by simp
qed

lemma splitByWeights_shares_lemma:
  assumes T: "0 < T" "T \<le> 2 ^ 62"
    and d: "distinct (map fst w)"
    and w: "\<forall>(k, v)\<in>set w. validWeight v"
    and pos: "flt (Finite 0) (fsum (map snd w))"
    and fl: "sum_list (map ibase (weightItems T (fsum (map snd w)) w)) \<le> T"
  shows "\<exists>sh. splitByWeights T w = Inr sh \<and>
           dom sh = fst ` {(k, v) \<in> set w. v \<noteq> Finite 0} \<and>
           (\<forall>k. (k, Finite 0) \<in> set w \<longrightarrow> sh k = None) \<and> sum_shares sh = T"
proof -
  let ?s = "fsum (map snd w)"
  let ?items = "weightItems T ?s w"
  have vw: "\<forall>v\<in>set (map snd w). validWeight v" using w by auto
  have sw: "sumWeights (Finite 0) (map snd w) = Inr ?s" by (rule weights_sum(1) [OF vw])
  have "\<not> fle ?s (Finite 0)" using pos weights_sum(2) [OF vw] by (simp add: sumAtLeast_sign)
  with sw have eq: "splitByWeights T w = distribute T ?items" by (simp add: splitByWeights_def)
  have dn: "distinct (map iname ?items)" using d by (simp add: weightItems_names distinct_map_filter)
  have nn: "\<forall>it\<in>set ?items. 0 \<le> ibase it" by (rule weightItems_nonneg [OF T w pos])
  have ne: "?items \<noteq> []" using positive_sum_nonempty [OF w pos] by (simp add: weightItems_def)
  have T63: "T < 2 ^ 63" using T(2) by simp
  from distribute_sum [OF dn nn fl T63 ne] obtain sh where
    sh: "distribute T ?items = Inr sh" "sum_shares sh = T" by blast
  have r: "splitByWeights T w = Inr sh" using eq sh(1) by simp
  have nz: "\<not> feq v (Finite 0) \<longleftrightarrow> v \<noteq> Finite 0" if "(k, v) \<in> set w" for k v
  proof -
    from w that have "validWeight v" by auto
    then obtain x where "v = Finite x" by (rule validWeight_cases)
    then show ?thesis by (simp add: feq_def)
  qed
  have dom: "dom sh = fst ` {(k, v) \<in> set w. v \<noteq> Finite 0}"
    using splitByWeights_dom [OF r] nz by (auto simp: image_iff)
  have "sh k = None" if "(k, Finite 0) \<in> set w" for k
  proof (rule ccontr)
    assume "sh k \<noteq> None"
    then have "k \<in> dom sh" by auto
    with dom obtain v where "(k, v) \<in> set w" "v \<noteq> Finite 0" by auto
    with that d show False
      by (metis eq_key_imp_eq_value)
  qed
  with r dom sh(2) show ?thesis by blast
qed

lemma fiveOnes_sum: "sumWeights (Finite 0) (map snd fiveOnes) = Inr (Finite 5)"
  by (simp add: fiveOnes_def float_eval)

lemma fiveOnes_items:
  "weightItems 1152921504606846976 (Finite 5) fiveOnes =
     map (\<lambda>k. \<lparr>iname = k, iraw = Finite 230584300921369408, ibase = 230584300921369408,
                ifrac = Finite 0\<rparr>) [''a'', ''b'', ''c'', ''d'', ''e'']"
  by (simp add: weightItems_def fiveOnes_def mkItem_def float_eval)

lemma fiveOnes_shares:
  "splitByWeights 1152921504606846976 fiveOnes =
     Inr [''a'' \<mapsto> 230584300921369408, ''b'' \<mapsto> 230584300921369408, ''c'' \<mapsto> 230584300921369408,
          ''d'' \<mapsto> 230584300921369408, ''e'' \<mapsto> 230584300921369408]"
proof -
  let ?items = "weightItems 1152921504606846976 (Finite 5) fiveOnes"
  have u: "usedOf ?items = 1152921504606847040"
    by (simp add: fiveOnes_items usedOf_def wrap64_def)
  have s: "sortSlice itemLess ?items = ?items"
    by (simp add: fiveOnes_items sortSlice_def itemLess_def feq_def)
  have "distribute 1152921504606846976 ?items =
     Inr [''a'' \<mapsto> 230584300921369408, ''b'' \<mapsto> 230584300921369408, ''c'' \<mapsto> 230584300921369408,
          ''d'' \<mapsto> 230584300921369408, ''e'' \<mapsto> 230584300921369408]"
    by (simp add: distribute_def u s wrap64_def) (simp add: fiveOnes_items)
  then show ?thesis by (simp add: splitByWeights_def fiveOnes_sum fle_def feq_def)
qed

lemma fiveOnes_total:
  "sum_shares [''a'' \<mapsto> 230584300921369408, ''b'' \<mapsto> 230584300921369408, ''c'' \<mapsto> 230584300921369408,
          ''d'' \<mapsto> 230584300921369408, ''e'' \<mapsto> 230584300921369408] = 1152921504606847040"
  by (simp add: sum_shares_def)

section \<open>The scenario inputs\<close>

lemma tripPercent_ok: "\<not> percentSumMismatch tripPercent"
  by (simp add: percentSumMismatch_def tripPercent_def fsum_def float_eval)

lemma tripPercent_items:
  "percentItems 10000000 tripPercent =
     [\<lparr>iname = ''alice'', iraw = Finite 2000000, ibase = 2000000, ifrac = Finite 0\<rparr>,
      \<lparr>iname = ''bob'', iraw = Finite 4000000, ibase = 4000000, ifrac = Finite 0\<rparr>,
      \<lparr>iname = ''charlie'', iraw = Finite 4000000, ibase = 4000000, ifrac = Finite 0\<rparr>]"
  by (simp add: tripPercent_def percentItems_def mkItem_def float_eval)

lemma tripWeights_sum: "fsum (map snd tripWeights) = Finite 8"
  by (simp add: tripWeights_def fsum_def float_eval)

lemma tripWeights_valid: "\<forall>(k, v)\<in>set tripWeights. validWeight v"
  by (simp add: tripWeights_def validWeight_def float_eval)

lemma tripWeights_items:
  "weightItems 10000000 (Finite 8) tripWeights =
     [\<lparr>iname = ''bob'', iraw = Finite 5000000, ibase = 5000000, ifrac = Finite 0\<rparr>,
      \<lparr>iname = ''charlie'', iraw = Finite 5000000, ibase = 5000000, ifrac = Finite 0\<rparr>]"
  by (simp add: tripWeights_def weightItems_def mkItem_def float_eval)

section \<open>Shares by weight\<close>

text \<open>
  Claim C3, amended. \<open>splitByWeights\<close> fails with \<open>NegativeWeight\<close> if a weight is
  negative. For weights that are representable numbers and not negative, it fails with
  \<open>NonPositiveWeightSum\<close> if their (binary64) sum is not positive; otherwise, for a total
  \<open>0 < T \<le> 2^62\<close>, distinct keys, and floors of the raw shares that add up to at most
  \<open>T\<close>, it returns a share for exactly the keys with a weight other than zero (a key
  with weight zero has no entry), and the shares add up to \<open>T\<close>.
\<close>

theorem splitByWeights_shares:
  "((\<exists>(k, v)\<in>set w. flt v (Finite 0)) \<longrightarrow> splitByWeights T w = Inl NegativeWeight) \<and>
   ((\<forall>(k, v)\<in>set w. validWeight v) \<and> \<not> flt (Finite 0) (fsum (map snd w)) \<longrightarrow>
      splitByWeights T w = Inl NonPositiveWeightSum) \<and>
   ((\<forall>(k, v)\<in>set w. validWeight v) \<and> flt (Finite 0) (fsum (map snd w)) \<and>
    0 < T \<and> T \<le> 2 ^ 62 \<and> distinct (map fst w) \<and>
    sum_list (map ibase (weightItems T (fsum (map snd w)) w)) \<le> T \<longrightarrow>
      (\<exists>sh. splitByWeights T w = Inr sh \<and>
         dom sh = fst ` {(k, v) \<in> set w. v \<noteq> Finite 0} \<and>
         (\<forall>k. (k, Finite 0) \<in> set w \<longrightarrow> sh k = None) \<and> sum_shares sh = T))"
proof (intro conjI impI)
  assume "\<exists>(k, v)\<in>set w. flt v (Finite 0)"
  then have "\<exists>v\<in>set (map snd w). flt v (Finite 0)" by force
  then show "splitByWeights T w = Inl NegativeWeight"
    by (simp add: splitByWeights_def sumWeights_negative)
next
  assume a: "(\<forall>(k, v)\<in>set w. validWeight v) \<and> \<not> flt (Finite 0) (fsum (map snd w))"
  then have vw: "\<forall>v\<in>set (map snd w). validWeight v" by auto
  from a weights_sum(2) [OF vw] have "fle (fsum (map snd w)) (Finite 0)"
    by (simp add: sumAtLeast_sign)
  then show "splitByWeights T w = Inl NonPositiveWeightSum"
    by (simp add: splitByWeights_def weights_sum(1) [OF vw])
next
  assume "(\<forall>(k, v)\<in>set w. validWeight v) \<and> flt (Finite 0) (fsum (map snd w)) \<and>
    0 < T \<and> T \<le> 2 ^ 62 \<and> distinct (map fst w) \<and>
    sum_list (map ibase (weightItems T (fsum (map snd w)) w)) \<le> T"
  then show "\<exists>sh. splitByWeights T w = Inr sh \<and>
         dom sh = fst ` {(k, v) \<in> set w. v \<noteq> Finite 0} \<and>
         (\<forall>k. (k, Finite 0) \<in> set w \<longrightarrow> sh k = None) \<and> sum_shares sh = T"
    by (intro splitByWeights_shares_lemma) simp_all
qed

theorem splitByWeights_shares_witness:
  "flt (Finite (- 1)) (Finite 0) \<and>
   splitByWeights 10000000 [(''alice'', Finite 2), (''bob'', Finite (- 1))] = Inl NegativeWeight \<and>
   \<not> flt (Finite 0) (fsum (map snd [(''alice'', Finite 0), (''bob'', Finite 0)])) \<and>
   splitByWeights 10000000 [(''alice'', Finite 0), (''bob'', Finite 0)] = Inl NonPositiveWeightSum \<and>
   flt (Finite 0) (fsum (map snd tripWeights)) \<and>
   sum_list (map ibase (weightItems 10000000 (fsum (map snd tripWeights)) tripWeights)) \<le> 10000000 \<and>
   (\<exists>sh. splitByWeights 10000000 tripWeights = Inr sh \<and> dom sh = {''bob'', ''charlie''} \<and>
      sh ''alice'' = None \<and> sum_shares sh = 10000000)"
proof -
  let ?neg = "[(''alice'', Finite 2), (''bob'', Finite (- 1))]"
  let ?zero = "[(''alice'', Finite 0), (''bob'', Finite 0)]"
  have n: "\<exists>(k, v)\<in>set ?neg. flt v (Finite 0)" by simp
  have z: "\<forall>(k, v)\<in>set ?zero. validWeight v" "\<not> flt (Finite 0) (fsum (map snd ?zero))"
    by (simp_all add: validWeight_def fsum_def float_eval)
  have t: "flt (Finite 0) (fsum (map snd tripWeights))" "0 < (10000000::int)"
    "(10000000::int) \<le> 2 ^ 62" "distinct (map fst tripWeights)"
    "sum_list (map ibase (weightItems 10000000 (fsum (map snd tripWeights)) tripWeights)) \<le> 10000000"
    by (simp_all add: tripWeights_sum tripWeights_items) (simp add: tripWeights_def)
  have d: "fst ` {(k, v) \<in> set tripWeights. v \<noteq> Finite 0} = {''bob'', ''charlie''}"
  proof -
    have "{(k, v) \<in> set tripWeights. v \<noteq> Finite 0} = {(''bob'', Finite 4), (''charlie'', Finite 4)}"
      by (auto simp: tripWeights_def)
    then show ?thesis by simp
  qed
  have a: "(''alice'', Finite 0) \<in> set tripWeights" by (simp add: tripWeights_def)
  from splitByWeights_shares [of ?neg 10000000] n
  have 1: "splitByWeights 10000000 ?neg = Inl NegativeWeight" by blast
  from splitByWeights_shares [of ?zero 10000000] z
  have 2: "splitByWeights 10000000 ?zero = Inl NonPositiveWeightSum" by blast
  from splitByWeights_shares [of tripWeights 10000000] tripWeights_valid t
  obtain sh where "splitByWeights 10000000 tripWeights = Inr sh"
    "dom sh = fst ` {(k, v) \<in> set tripWeights. v \<noteq> Finite 0}"
    "\<forall>k. (k, Finite 0) \<in> set tripWeights \<longrightarrow> sh k = None" "sum_shares sh = 10000000"
    by blast
  with a d have 3: "\<exists>sh. splitByWeights 10000000 tripWeights = Inr sh \<and>
      dom sh = {''bob'', ''charlie''} \<and> sh ''alice'' = None \<and> sum_shares sh = 10000000"
    by auto
  from 1 2 3 z(2) t(1,5) show ?thesis by simp
qed

text \<open>
  Claim C3 as stated covers every total. For five weights 1 and the total \<open>2^60\<close> (which
  is 1152921504606846976) the quotient \<open>1/5\<close> is rounded up: every raw share is
  230584300921369408, and the five shares add up to \<open>2^60 + 64\<close>.
\<close>

theorem splitByWeights_shares_counterexample:
  "splitByWeights 1152921504606846976 fiveOnes =
     Inr [''a'' \<mapsto> 230584300921369408, ''b'' \<mapsto> 230584300921369408, ''c'' \<mapsto> 230584300921369408,
          ''d'' \<mapsto> 230584300921369408, ''e'' \<mapsto> 230584300921369408] \<and>
   sum_shares [''a'' \<mapsto> 230584300921369408, ''b'' \<mapsto> 230584300921369408, ''c'' \<mapsto> 230584300921369408,
          ''d'' \<mapsto> 230584300921369408, ''e'' \<mapsto> 230584300921369408] = 1152921504606847040 \<and>
   (1152921504606847040 :: int) \<noteq> 1152921504606846976 \<and>
   (1152921504606846976 :: int) = 2 ^ 60"
  by (simp add: fiveOnes_shares fiveOnes_total)

section \<open>Properties of the graph export\<close>

lemma sorted_insertBy:
  assumes tr: "\<And>a b c. lt a b \<Longrightarrow> lt b c \<Longrightarrow> lt a c"
    and irr: "\<And>a. \<not> lt a a"
    and "sorted_wrt (\<lambda>a b. \<not> lt b a) xs"
  shows "sorted_wrt (\<lambda>a b. \<not> lt b a) (insertBy lt a xs)"
  using assms(3)
proof (induction xs)
  case Nil
  then show ?case by simp
next
  case (Cons b bs)
  show ?case
  proof (cases "lt a b")
    case True
    have "\<not> lt c a" if "c \<in> set bs" for c
    proof
      assume "lt c a"
      then have "lt c b" using True by (rule tr)
      with Cons.prems that show False by simp
    qed
    moreover have "\<not> lt b a"
    proof
      assume "lt b a"
      then have "lt b b" using True by (rule tr)
      then show False by (simp add: irr)
    qed
    ultimately show ?thesis using True Cons.prems by simp
  next
    case False
    then show ?thesis using Cons by auto
  qed
qed

lemma sorted_sortSlice:
  assumes "\<And>a b c. lt a b \<Longrightarrow> lt b c \<Longrightarrow> lt a c" "\<And>a. \<not> lt a a"
  shows "sorted_wrt (\<lambda>a b. \<not> lt b a) (sortSlice lt xs)"
  unfolding sortSlice_def
  by (induction xs) (simp_all add: sorted_insertBy assms)

lemma distinct_insertBy: "distinct (insertBy lt a xs) \<longleftrightarrow> a \<notin> set xs \<and> distinct xs"
  by (induction xs) auto

lemma distinct_sortSlice: "distinct (sortSlice lt xs) \<longleftrightarrow> distinct xs"
  unfolding sortSlice_def
  by (induction xs) (simp_all add: distinct_insertBy flip: sortSlice_def)

lemma sorted_wrt_distinct:
  "sorted_wrt P xs \<Longrightarrow> distinct xs \<Longrightarrow> sorted_wrt (\<lambda>a b. P a b \<and> a \<noteq> b) xs"
  by (induction xs) auto

lemma edgeKeyLess_trans: "edgeKeyLess a b \<Longrightarrow> edgeKeyLess b c \<Longrightarrow> edgeKeyLess a c"
  by (auto simp: edgeKeyLess_def split: if_splits)

lemma edgeKeyLess_irrefl: "\<not> edgeKeyLess a a"
  by (simp add: edgeKeyLess_def)

lemma edgeKeyLess_total: "a \<noteq> b \<Longrightarrow> edgeKeyLess a b \<or> edgeKeyLess b a"
  by (auto simp: edgeKeyLess_def prod_eq_iff)

lemma sorted_edgeKeys:
  assumes "distinct ks"
  shows "sorted_wrt edgeKeyLess (sortSlice edgeKeyLess ks)"
proof -
  have "sorted_wrt (\<lambda>a b. \<not> edgeKeyLess b a) (sortSlice edgeKeyLess ks)"
    by (rule sorted_sortSlice) (auto intro: edgeKeyLess_trans simp: edgeKeyLess_irrefl)
  moreover have "distinct (sortSlice edgeKeyLess ks)" using assms by (simp add: distinct_sortSlice)
  ultimately have "sorted_wrt (\<lambda>a b. \<not> edgeKeyLess b a \<and> a \<noteq> b) (sortSlice edgeKeyLess ks)"
    by (rule sorted_wrt_distinct)
  then show ?thesis
    by (rule sorted_wrt_mono_rel [rotated]) (use edgeKeyLess_total in blast)
qed

text \<open>The sums of the export as one loop over all edges.\<close>

lemma edgeSumsOf_pairAmounts:
  "edgeSumsOf gr = fold (\<lambda>(k, a) acc. addToSum acc k a) (pairAmounts gr) []"
proof -
  have inner: "fold (\<lambda>e acc. addToSum acc (f, To e) (AmountInMicroCents (Metadata e))) es acc =
      fold (\<lambda>(k, a) acc. addToSum acc k a) (map (\<lambda>e. ((f, To e), AmountInMicroCents (Metadata e))) es) acc"
    for f es acc
    by (induction es arbitrary: acc) simp_all
  have "fold (\<lambda>(fromKey, edges) edgeSums.
             fold (\<lambda>e acc. addToSum acc (fromKey, To e) (AmountInMicroCents (Metadata e)))
               edges edgeSums) ns acc =
        fold (\<lambda>(k, a) acc. addToSum acc k a)
          (concat (map (\<lambda>(fromKey, edges). map (\<lambda>e. ((fromKey, To e), AmountInMicroCents (Metadata e))) edges) ns)) acc"
    for ns acc
    by (induction ns arbitrary: acc) (auto simp: inner)
  then show ?thesis by (simp add: edgeSumsOf_def pairAmounts_def)
qed

lemma fold_addToSum_keys:
  "fst ` set (fold (\<lambda>(k, a) acc. addToSum acc k a) ps acc) = fst ` set ps \<union> fst ` set acc"
proof (induction ps arbitrary: acc)
  case Nil
  then show ?case by simp
next
  case (Cons p ps)
  obtain k a where p: "p = (k, a)" by (cases p)
  have "fst ` set (addToSum acc k a) = insert k (fst ` set acc)"
    using dom_update [of k _ acc] by (simp add: addToSum_def dom_map_of_conv_image_fst flip: update_conv')
  then show ?case using Cons [of "addToSum acc k a"] by (auto simp: p)
qed

lemma fold_addToSum_distinct:
  "distinct (map fst acc) \<Longrightarrow> distinct (map fst (fold (\<lambda>(k, a) acc. addToSum acc k a) ps acc))"
proof (induction ps arbitrary: acc)
  case Nil
  then show ?case by simp
next
  case (Cons p ps)
  obtain k a where p: "p = (k, a)" by (cases p)
  have "distinct (map fst (addToSum acc k a))"
    using Cons.prems by (simp add: addToSum_def distinct_update)
  then show ?case using Cons.IH [of "addToSum acc k a"] by (simp add: p)
qed

lemma fold_addToSum_value:
  "map_of (fold (\<lambda>(k, a) acc. addToSum acc k a) ps acc) k =
     (if k \<in> fst ` set ps
      then Some (wrap64 ((case map_of acc k of None \<Rightarrow> 0 | Some v \<Rightarrow> v) +
                  sum_list (map snd (filter (\<lambda>p. fst p = k) ps))))
      else map_of acc k)"
proof (induction ps arbitrary: acc)
  case Nil
  then show ?case by simp
next
  case (Cons p ps)
  obtain k' a where p: "p = (k', a)" by (cases p)
  let ?acc = "addToSum acc k' a"
  have m: "map_of ?acc k' = Some (wrap64 ((case map_of acc k' of None \<Rightarrow> 0 | Some v \<Rightarrow> v) + a))"
    "k \<noteq> k' \<Longrightarrow> map_of ?acc k = map_of acc k"
    by (simp_all add: addToSum_def update_conv')
  show ?case
  proof (cases "k = k'")
    case True
    show ?thesis
    proof (cases "k \<in> fst ` set ps")
      case True
      with \<open>k = k'\<close> show ?thesis
        using Cons [of ?acc] by (simp add: p m wrap64_add_left add.assoc)
    next
      case False
      then have "filter (\<lambda>p. fst p = k) ps = []" by (auto simp: filter_empty_conv)
      with False \<open>k = k'\<close> show ?thesis
        using Cons [of ?acc] by (simp add: p m)
    qed
  next
    case False
    then show ?thesis using Cons [of ?acc] by (simp add: p m)
  qed
qed

lemma pairAmounts_keys:
  "(a, b) \<in> fst ` set (pairAmounts gr) \<longleftrightarrow> (\<exists>es e. (a, es) \<in> set (nodes gr) \<and> e \<in> set es \<and> To e = b)"
  by (force simp: pairAmounts_def)

lemma pairAmounts_sum:
  assumes "distinct (map fst ns)"
  shows "sum_list (map snd (filter (\<lambda>p. fst p = (a, b))
           (concat (map (\<lambda>(fromKey, edges). map (\<lambda>e. ((fromKey, To e), AmountInMicroCents (Metadata e))) edges) ns)))) =
         (\<Sum>e\<leftarrow>filter (\<lambda>e. To e = b) (case map_of ns a of None \<Rightarrow> [] | Some es \<Rightarrow> es). AmountInMicroCents (Metadata e))"
  using assms
proof (induction ns)
  case Nil
  then show ?case by simp
next
  case (Cons n ns)
  obtain f es where n: "n = (f, es)" by (cases n)
  have one: "sum_list (map snd (filter (\<lambda>p. fst p = (a, b)) (map (\<lambda>e. ((f, To e), AmountInMicroCents (Metadata e))) es))) =
     (if f = a then (\<Sum>e\<leftarrow>filter (\<lambda>e. To e = b) es. AmountInMicroCents (Metadata e)) else 0)"
    by (induction es) auto
  show ?case
  proof (cases "f = a")
    case True
    with Cons.prems have "a \<notin> fst ` set ns" by (simp add: n)
    then have "filter (\<lambda>p. fst p = (a, b))
           (concat (map (\<lambda>(fromKey, edges). map (\<lambda>e. ((fromKey, To e), AmountInMicroCents (Metadata e))) edges) ns)) = []"
      by (force simp: filter_empty_conv)
    with True one show ?thesis by (simp add: n)
  next
    case False
    with Cons show ?thesis by (simp add: n one)
  qed
qed

lemma edgeSumsOf_value:
  assumes "distinct (map fst (nodes gr))"
  shows "map_of (edgeSumsOf gr) (a, b) =
     (if \<exists>e\<in>set (edgesOf gr a). To e = b then Some (wrap64 (owed gr a b)) else None)"
proof -
  have k: "(a, b) \<in> fst ` set (pairAmounts gr) \<longleftrightarrow> (\<exists>e\<in>set (edgesOf gr a). To e = b)"
    using assms by (auto simp: pairAmounts_keys edgesOf_def split: option.splits dest: map_of_SomeD)
  have "sum_list (map snd (filter (\<lambda>p. fst p = (a, b)) (pairAmounts gr))) = owed gr a b"
    using pairAmounts_sum [OF assms] by (simp add: pairAmounts_def owed_def edgesOf_def)
  then show ?thesis
    by (simp add: edgeSumsOf_pairAmounts fold_addToSum_value k)
qed

lemma edgeSumsOf_distinct: "distinct (map fst (edgeSumsOf gr))"
  by (simp add: edgeSumsOf_pairAmounts fold_addToSum_distinct)

lemma rnd_error:
  assumes "x \<noteq> 0"
  shows "\<bar>rnd x - x\<bar> \<le> 2 powi lastPlace x / 2"
proof -
  define p where "p = (2::real) powi lastPlace x"
  define z where "z = x / p"
  have p: "0 < p" by (simp add: p_def)
  then have x: "x = z * p" by (simp add: z_def)
  have r: "rnd x = of_int (round_ne z) * p"
    using assms by (simp add: rnd_alt p_def z_def)
  have "\<bar>of_int (round_ne z) - z\<bar> \<le> 1 / 2"
    using round_ne_bounds [of z] by linarith
  then have "\<bar>of_int (round_ne z) - z\<bar> * p \<le> 1 / 2 * p"
    using p by (intro mult_right_mono) simp_all
  moreover have "rnd x - x = (of_int (round_ne z) - z) * p"
    using r x by (simp only: left_diff_distrib)
  ultimately show ?thesis using p by (simp add: abs_mult p_def)
qed

lemma rnd_relative_error:
  assumes "2 powi (- 1022) \<le> \<bar>x\<bar>"
  shows "\<bar>rnd x - x\<bar> \<le> \<bar>x\<bar> / 2 ^ 53"
proof -
  have x0: "x \<noteq> 0" using assms pow2_pos [of "- 1022"] by auto
  have "(2::real) powi (- 1022) < 2 powi (binade x + 1)"
    using assms binade_bounds(2) [OF x0] by (rule le_less_trans)
  then have "- 1022 < binade x + 1" by (simp only: pow2_less_iff)
  then have b: "- 1022 \<le> binade x" by simp
  then have lp: "lastPlace x = binade x - 52" by (simp add: lastPlace_def)
  have "2 powi lastPlace x / 2 = 2 powi binade x / (2::real) ^ 53"
    by (simp add: lp power_int_diff)
  also have "\<dots> \<le> \<bar>x\<bar> / 2 ^ 53"
    using binade_bounds(1) [OF x0] by (simp add: divide_right_mono)
  finally show ?thesis using rnd_error [OF x0] by simp
qed

lemma round_ne_near:
  assumes "\<bar>z - of_int c\<bar> < 1 / 2"
  shows "round_ne z = c"
proof -
  have "\<bar>real_of_int (round_ne z) - of_int c\<bar> < 1"
    using round_ne_bounds [of z] assms by linarith
  then have "\<bar>real_of_int (round_ne z - c)\<bar> < 1" by simp
  then have "\<bar>round_ne z - c\<bar> < 1" by (simp only: flip: of_int_abs)
  then show ?thesis by simp
qed

lemma cents_to_dollars:
  assumes "0 \<le> c" "c < 2 ^ 52"
  shows "\<exists>x. fdiv (float64_of_int64 c) (Finite 100) = Finite x \<and> 0 \<le> x \<and> round_ne (x * 100) = c"
proof -
  have c53: "\<bar>c\<bar> < 2 ^ 53" using assms by simp
  have cr: "real_of_int c < 2 ^ 52"
    using assms(2) of_int_less_iff [of c "2 ^ 52", where ?'a = real] by simp
  then have "\<bar>real_of_int c\<bar> \<le> 2 ^ 1023"
    using assms(1) power_increasing [of 52 1023 "2::real"] by simp
  then have f: "float64_of_int64 c = Finite (of_int c)"
    by (simp add: float64_of_int64_def round64_Finite rnd_of_int [OF c53])
  define y where "y = real_of_int c / 100"
  have y: "0 \<le> y" "y \<le> 2 ^ 52" using assms(1) cr by (simp_all add: y_def)
  have "rnd ((2::real) ^ 52) = 2 ^ 52" by (rule rnd_pow2_nat)
  then have q: "round64 y = Finite (rnd y)" "0 \<le> rnd y"
    using round64_between [of 0 y "2 ^ 52"] y by simp_all
  have "round_ne (rnd y * 100) = c"
  proof (cases "c = 0")
    case True
    then show ?thesis using round_ne_of_int [of 0] by (simp add: y_def)
  next
    case False
    with assms(1) have "1 \<le> c" by simp
    then have "1 \<le> real_of_int c" by simp
    then have y1: "1 / 100 \<le> y" by (simp add: y_def)
    have "(2::real) powi (- 1022) \<le> 2 powi (- 7)" by (simp add: pow2_le_iff)
    also have "\<dots> \<le> 1 / 100" by (simp add: power_int_minus)
    finally have "2 powi (- 1022) \<le> \<bar>y\<bar>" using y1 by simp
    then have "\<bar>rnd y - y\<bar> \<le> \<bar>y\<bar> / 2 ^ 53" by (rule rnd_relative_error)
    then have "\<bar>rnd y - y\<bar> * 100 \<le> y / 2 ^ 53 * 100" using y(1) by simp
    also have "\<dots> = real_of_int c / 2 ^ 53" by (simp add: y_def)
    also have "\<dots> < 2 ^ 52 / 2 ^ 53" using cr by (simp add: divide_strict_right_mono)
    finally have "\<bar>rnd y - y\<bar> * 100 < 1 / 2" by simp
    moreover have "rnd y * 100 - of_int c = (rnd y - y) * 100" by (simp add: y_def algebra_simps)
    then have "\<bar>rnd y * 100 - of_int c\<bar> = \<bar>rnd y - y\<bar> * \<bar>100\<bar>" by (simp only: abs_mult)
    ultimately have "\<bar>rnd y * 100 - of_int c\<bar> < 1 / 2" by simp
    then show ?thesis by (rule round_ne_near)
  qed
  with q f show ?thesis by (simp add: y_def)
qed

lemma formatMicroCentsAsDollars_exact:
  assumes "0 \<le> micro" "micro + 500 < 2 ^ 52 * 1000"
  shows "formatMicroCentsAsDollars micro = roundHalfUpLabel micro"
proof -
  define c where "c = (micro + 500) div 1000"
  have "int64 (micro + 500)" using assms by (simp add: int64_def)
  then have w: "wrap64 (micro + 500) sdiv 1000 = c"
    using assms(1) by (simp add: wrap64_id sdiv_nonneg c_def)
  have c: "0 \<le> c" "c < 2 ^ 52" using assms by (simp_all add: c_def)
  from cents_to_dollars [OF c] obtain x
    where x: "fdiv (float64_of_int64 c) (Finite 100) = Finite x" "0 \<le> x" "round_ne (x * 100) = c"
    by blast
  then have "formatF2 (fdiv (float64_of_int64 c) (Finite 100)) =
      showNat (nat c div 100) @ ''.'' @ [digitChar (nat c mod 100 div 10), digitChar (nat c mod 10)]"
    by (simp add: Let_def)
  then show ?thesis
    by (simp add: formatMicroCentsAsDollars_def roundHalfUpLabel_def w Let_def flip: c_def)
qed

lemma concat_map_if:
  "concat (map (\<lambda>x. if P x then [] else f x) xs) = concat (map f (filter (\<lambda>x. \<not> P x) xs))"
  by (induction xs) simp_all

lemma owed_no_edge: "\<not> (\<exists>e\<in>set (edgesOf gr a). To e = b) \<Longrightarrow> owed gr a b = 0"
proof -
  assume "\<not> (\<exists>e\<in>set (edgesOf gr a). To e = b)"
  then have "filter (\<lambda>e. To e = b) (edgesOf gr a) = []" by (simp add: filter_empty_conv)
  then show ?thesis by (simp add: owed_def)
qed

lemma dotEdges_alt:
  assumes "distinct (map fst (nodes (ggraph g)))"
  shows "dotEdges g =
     map (\<lambda>k. (k, wrap64 (owed (ggraph g) (fst k) (snd k))))
       (sortSlice edgeKeyLess (map fst (edgeSumsOf (ggraph g))))"
proof -
  have "(case map_of (edgeSumsOf (ggraph g)) k of None \<Rightarrow> 0 | Some v \<Rightarrow> v) =
      wrap64 (owed (ggraph g) (fst k) (snd k))" for k
    using edgeSumsOf_value [OF assms, of "fst k" "snd k"] owed_no_edge [of "ggraph g" "fst k" "snd k"]
    by (simp split: if_splits)
  then show ?thesis by (simp add: dotEdges_def Let_def)
qed

lemma edgeSumsOf_keys:
  assumes "distinct (map fst (nodes gr))"
  shows "(a, b) \<in> fst ` set (edgeSumsOf gr) \<longleftrightarrow> (\<exists>e\<in>set (edgesOf gr a). To e = b)"
proof -
  have "(a, b) \<in> fst ` set (edgeSumsOf gr) \<longleftrightarrow> map_of (edgeSumsOf gr) (a, b) \<noteq> None"
    by (simp add: map_of_eq_None_iff)
  then show ?thesis by (simp add: edgeSumsOf_value [OF assms])
qed

lemma dotNames_props:
  assumes "distinct (map fst (people g))"
  shows "sorted (dotNames g)" "distinct (dotNames g)" "set (dotNames g) = fst ` set (people g)"
  using assms by (simp_all add: dotNames_def)

lemma displayName_member:
  "k \<in> fst ` set (people g) \<Longrightarrow> displayName g k = Name (the (map_of (people g) k))"
  by (auto simp: displayName_def map_of_eq_None_iff split: option.splits)

lemma GetGraphDOT_lemma:
  assumes people: "distinct (map fst (people g))"
    and nodes: "distinct (map fst (nodes (ggraph g)))"
    and bound: "\<forall>a b. - (2 ^ 63) \<le> owed (ggraph g) a b \<and> owed (ggraph g) a b + 500 < 2 ^ 52 * 1000"
  shows "\<exists>names pairs.
      sorted names \<and> distinct names \<and> set names = fst ` set (people g) \<and>
      sorted_wrt (\<lambda>(a, b) (c, d). a < c \<or> a = c \<and> b < d) pairs \<and>
      set pairs = {(a, b). 0 < owed (ggraph g) a b} \<and>
      GetGraphDOT g =
        ''digraph '' @ quote (groupName g) @ '' {'' @ [CHR 0x0A] @
        concat (map (\<lambda>k. ''  '' @ quote k @ '' [label='' @
                          quote (Name (the (map_of (people g) k))) @ ''];'' @ [CHR 0x0A]) names) @
        concat (map (\<lambda>(a, b). ''  '' @ quote a @ '' -> '' @ quote b @ '' [label='' @
                          quote (roundHalfUpLabel (owed (ggraph g) a b)) @ ''];'' @ [CHR 0x0A]) pairs) @
        ''}'' @ [CHR 0x0A]"
proof -
  define gr where "gr = ggraph g"
  define keys where "keys = sortSlice edgeKeyLess (map fst (edgeSumsOf gr))"
  define pairs where "pairs = filter (\<lambda>k. 0 < owed gr (fst k) (snd k)) keys"
  have w: "wrap64 (owed gr a b) = owed gr a b" for a b
  proof (rule wrap64_id)
    from bound have "- (2 ^ 63) \<le> owed gr a b" "owed gr a b + 500 < 2 ^ 52 * 1000"
      by (simp_all add: gr_def)
    then show "int64 (owed gr a b)" by (simp add: int64_def)
  qed
  have de: "dotEdges g = map (\<lambda>k. (k, owed gr (fst k) (snd k))) keys"
    using dotEdges_alt [OF nodes] w unfolding keys_def gr_def by simp
  have "sorted_wrt edgeKeyLess keys"
    unfolding keys_def by (rule sorted_edgeKeys) (rule edgeSumsOf_distinct)
  then have "sorted_wrt edgeKeyLess pairs" by (simp add: pairs_def sorted_wrt_filter)
  then have s: "sorted_wrt (\<lambda>(a, b) (c, d). a < c \<or> a = c \<and> b < d) pairs"
    by (rule sorted_wrt_mono_rel [rotated]) (auto simp: edgeKeyLess_def split: if_splits)
  have p: "set pairs = {(a, b). 0 < owed gr a b}"
  proof -
    have "(a, b) \<in> set keys" if "0 < owed gr a b" for a b
    proof (rule ccontr)
      assume "(a, b) \<notin> set keys"
      then have "\<not> (\<exists>e\<in>set (edgesOf gr a). To e = b)"
        using edgeSumsOf_keys [of gr a b] nodes by (simp add: keys_def gr_def)
      then have "owed gr a b = 0" by (rule owed_no_edge)
      with that show False by simp
    qed
    then show ?thesis by (auto simp: pairs_def)
  qed
  have lab: "edgeDecl k (owed gr (fst k) (snd k)) =
      ''  '' @ quote (fst k) @ '' -> '' @ quote (snd k) @ '' [label='' @
         quote (roundHalfUpLabel (owed gr (fst k) (snd k))) @ ''];'' @ [CHR 0x0A]"
    if "k \<in> set pairs" for k
  proof -
    from that have "0 \<le> owed gr (fst k) (snd k)" by (simp add: pairs_def)
    moreover have "owed gr (fst k) (snd k) + 500 < 2 ^ 52 * 1000" using bound by (simp add: gr_def)
    ultimately show ?thesis by (simp add: edgeDecl_def formatMicroCentsAsDollars_exact)
  qed
  have e: "concat (map (\<lambda>(k, micro). if micro \<le> 0 then [] else edgeDecl k micro) (dotEdges g)) =
      concat (map (\<lambda>(a, b). ''  '' @ quote a @ '' -> '' @ quote b @ '' [label='' @
                          quote (roundHalfUpLabel (owed gr a b)) @ ''];'' @ [CHR 0x0A]) pairs)"
  proof -
    have "concat (map (\<lambda>(k, micro). if micro \<le> 0 then [] else edgeDecl k micro) (dotEdges g)) =
        concat (map (\<lambda>k. if owed gr (fst k) (snd k) \<le> 0 then [] else edgeDecl k (owed gr (fst k) (snd k))) keys)"
      by (simp add: de comp_def)
    also have "\<dots> = concat (map (\<lambda>k. edgeDecl k (owed gr (fst k) (snd k))) pairs)"
      by (simp add: concat_map_if pairs_def not_le)
    also have "map (\<lambda>k. edgeDecl k (owed gr (fst k) (snd k))) pairs =
        map (\<lambda>(a, b). ''  '' @ quote a @ '' -> '' @ quote b @ '' [label='' @
                          quote (roundHalfUpLabel (owed gr a b)) @ ''];'' @ [CHR 0x0A]) pairs"
      by (rule map_cong) (simp_all add: lab case_prod_unfold)
    finally show ?thesis .
  qed
  have n: "map (nodeDecl g) (dotNames g) =
      map (\<lambda>k. ''  '' @ quote k @ '' [label='' @
                          quote (Name (the (map_of (people g) k))) @ ''];'' @ [CHR 0x0A]) (dotNames g)"
    by (rule map_cong) (simp_all add: nodeDecl_def displayName_member dotNames_props(3) [OF people])
  have "GetGraphDOT g =
        ''digraph '' @ quote (groupName g) @ '' {'' @ [CHR 0x0A] @
        concat (map (\<lambda>k. ''  '' @ quote k @ '' [label='' @
                          quote (Name (the (map_of (people g) k))) @ ''];'' @ [CHR 0x0A]) (dotNames g)) @
        concat (map (\<lambda>(a, b). ''  '' @ quote a @ '' -> '' @ quote b @ '' [label='' @
                          quote (roundHalfUpLabel (owed gr a b)) @ ''];'' @ [CHR 0x0A]) pairs) @
        ''}'' @ [CHR 0x0A]"
    unfolding GetGraphDOT_def e n ..
  with s p dotNames_props [OF people] show ?thesis
    unfolding gr_def by blast
qed

lemma showNat_numeral:
  "showNat (numeral k) =
     (if numeral k < (10::nat) then [digitChar (numeral k)]
      else showNat (numeral k div 10) @ [digitChar (numeral k mod 10)])"
  by (rule showNat.simps)

lemma showNat_0: "showNat 0 = ''0''"
  by (simp add: showNat.simps [of 0] digitChar_def)

lemma showNat_1: "showNat (Suc 0) = ''1''"
  by (simp add: showNat.simps [of "Suc 0"] digitChar_def)

lemmas label_eval = roundHalfUpLabel_def Let_def showNat_numeral showNat_0 showNat_1 digitChar_def

lemma label_12345500: "roundHalfUpLabel 12345500 = ''$123.46''"
  by (simp add: label_eval)

lemma label_7000000: "roundHalfUpLabel 7000000 = ''$70.00''"
  by (simp add: label_eval)

lemma label_2000: "roundHalfUpLabel 2000 = ''$0.02''"
  by (simp add: label_eval)

lemma label_huge: "roundHalfUpLabel 9007199254740993000 = ''$90071992547409.93''"
  by (simp add: label_eval)

lemma huge_digits: "formatF2 (Finite (5764607523034235 / 64)) = ''90071992547409.92''"
  by (simp add: Let_def round_ne_def showNat_numeral digitChar_def)

lemma exportState_names: "dotNames exportState = [''alice'', ''bob'', ''charlie'']"
  by code_simp

lemma exportState_owed:
  "owed (ggraph exportState) a b =
     (if a = ''alice'' \<and> b = ''bob'' then 12345500
      else if a = ''alice'' \<and> b = ''charlie'' then 7000000
      else if a = ''bob'' \<and> b = ''alice'' then 2000 else 0)"
  by (simp add: owed_def edgesOf_def exportState_def)

lemma huge_quotient:
  "fdiv (float64_of_int64 9007199254740993) (Finite 100) = Finite (5764607523034235 / 64)"
  by (simp add: float_eval)

lemma format_huge: "formatMicroCentsAsDollars 9007199254740993000 = ''$90071992547409.92''"
proof -
  have "wrap64 (9007199254740993000 + 500) sdiv 1000 = 9007199254740993"
    by (simp add: wrap64_def sdiv_nonneg)
  then show ?thesis
    by (simp only: formatMicroCentsAsDollars_def Let_def huge_quotient huge_digits) simp
qed

lemma hugeState_edges: "dotEdges hugeState = [((''bob'', ''alice''), 9007199254740993000)]"
  by code_simp

lemma hugeState_names: "dotNames hugeState = [''alice'', ''bob'']"
  by code_simp

lemma quote_simps:
  "quote ''trip'' = CHR 0x22 # ''trip'' @ [CHR 0x22]"
  "quote ''alice'' = CHR 0x22 # ''alice'' @ [CHR 0x22]"
  "quote ''bob'' = CHR 0x22 # ''bob'' @ [CHR 0x22]"
  "quote ''Alice'' = CHR 0x22 # ''Alice'' @ [CHR 0x22]"
  "quote ''Bob'' = CHR 0x22 # ''Bob'' @ [CHR 0x22]"
  by (simp_all add: quote_def quoteChar_def)

lemma hugeState_dot:
  "GetGraphDOT hugeState =
     ''digraph '' @ quote ''trip'' @ '' {'' @ [CHR 0x0A] @
     ''  '' @ quote ''alice'' @ '' [label='' @ quote ''Alice'' @ ''];'' @ [CHR 0x0A] @
     ''  '' @ quote ''bob'' @ '' [label='' @ quote ''Bob'' @ ''];'' @ [CHR 0x0A] @
     ''  '' @ quote ''bob'' @ '' -> '' @ quote ''alice'' @ '' [label='' @
        quote ''$90071992547409.92'' @ ''];'' @ [CHR 0x0A] @
     ''}'' @ [CHR 0x0A]"
  by (simp add: GetGraphDOT_def hugeState_edges hugeState_names nodeDecl_def edgeDecl_def
      format_huge displayName_def) (simp add: hugeState_def)

lemma exportState_edges:
  "dotEdges exportState = [((''alice'', ''bob''), 12345500), ((''alice'', ''charlie''), 7000000),
     ((''bob'', ''alice''), 2000), ((''charlie'', ''alice''), 0)]"
  by code_simp

lemma exportState_dot:
  "GetGraphDOT exportState =
     ''digraph '' @ quote ''trip'' @ '' {'' @ [CHR 0x0A] @
     ''  '' @ quote ''alice'' @ '' [label='' @ quote ''Alice'' @ ''];'' @ [CHR 0x0A] @
     ''  '' @ quote ''bob'' @ '' [label='' @ quote ''Bob'' @ ''];'' @ [CHR 0x0A] @
     ''  '' @ quote ''charlie'' @ '' [label='' @ quote ''Charlie'' @ ''];'' @ [CHR 0x0A] @
     ''  '' @ quote ''alice'' @ '' -> '' @ quote ''bob'' @ '' [label='' @ quote ''$123.46'' @ ''];'' @ [CHR 0x0A] @
     ''  '' @ quote ''alice'' @ '' -> '' @ quote ''charlie'' @ '' [label='' @ quote ''$70.00'' @ ''];'' @ [CHR 0x0A] @
     ''  '' @ quote ''bob'' @ '' -> '' @ quote ''alice'' @ '' [label='' @ quote ''$0.02'' @ ''];'' @ [CHR 0x0A] @
     ''}'' @ [CHR 0x0A]"
  by (simp add: GetGraphDOT_def exportState_edges exportState_names nodeDecl_def edgeDecl_def
      formatMicroCentsAsDollars_exact label_12345500 label_7000000 label_2000 displayName_def)
    (simp add: exportState_def)

text \<open>
  Claim C9, amended. In a group state whose maps have distinct keys and whose aggregate
  amounts (the sums of the edge amounts of each ordered pair) fit \<open>int64\<close> and give
  fewer than \<open>2^52\<close> cents, the export consists of the header, one node declaration per
  member key, sorted and labelled with the display name, one edge declaration per ordered
  pair with a strictly positive aggregate amount, sorted by from-key and then to-key and
  labelled with the amount rounded half up to the cent and written with two decimals,
  and the closing brace.
\<close>

theorem GetGraphDOT_spec:
  assumes "distinct (map fst (people g))"
    and "distinct (map fst (nodes (ggraph g)))"
    and "\<forall>a b. - (2 ^ 63) \<le> owed (ggraph g) a b \<and> owed (ggraph g) a b + 500 < 2 ^ 52 * 1000"
  shows "\<exists>names pairs.
      sorted names \<and> distinct names \<and> set names = fst ` set (people g) \<and>
      sorted_wrt (\<lambda>(a, b) (c, d). a < c \<or> a = c \<and> b < d) pairs \<and>
      set pairs = {(a, b). 0 < owed (ggraph g) a b} \<and>
      GetGraphDOT g =
        ''digraph '' @ quote (groupName g) @ '' {'' @ [CHR 0x0A] @
        concat (map (\<lambda>k. ''  '' @ quote k @ '' [label='' @
                          quote (Name (the (map_of (people g) k))) @ ''];'' @ [CHR 0x0A]) names) @
        concat (map (\<lambda>(a, b). ''  '' @ quote a @ '' -> '' @ quote b @ '' [label='' @
                          quote (roundHalfUpLabel (owed (ggraph g) a b)) @ ''];'' @ [CHR 0x0A]) pairs) @
        ''}'' @ [CHR 0x0A]"
  using assms by (rule GetGraphDOT_lemma)

theorem GetGraphDOT_spec_witness:
  "distinct (map fst (people exportState)) \<and>
   distinct (map fst (nodes (ggraph exportState))) \<and>
   (\<forall>a b. - (2 ^ 63) \<le> owed (ggraph exportState) a b \<and>
      owed (ggraph exportState) a b + 500 < 2 ^ 52 * 1000) \<and>
   (\<exists>names pairs.
      sorted names \<and> distinct names \<and> set names = {''alice'', ''bob'', ''charlie''} \<and>
      sorted_wrt (\<lambda>(a, b) (c, d). a < c \<or> a = c \<and> b < d) pairs \<and>
      set pairs = {(a, b). 0 < owed (ggraph exportState) a b} \<and>
      GetGraphDOT exportState =
        ''digraph '' @ quote ''trip'' @ '' {'' @ [CHR 0x0A] @
        concat (map (\<lambda>k. ''  '' @ quote k @ '' [label='' @
                          quote (Name (the (map_of (people exportState) k))) @ ''];'' @ [CHR 0x0A]) names) @
        concat (map (\<lambda>(a, b). ''  '' @ quote a @ '' -> '' @ quote b @ '' [label='' @
                          quote (roundHalfUpLabel (owed (ggraph exportState) a b)) @ ''];'' @ [CHR 0x0A]) pairs) @
        ''}'' @ [CHR 0x0A]) \<and>
   owed (ggraph exportState) ''alice'' ''bob'' = 12345500 \<and>
   owed (ggraph exportState) ''charlie'' ''alice'' = 0 \<and>
   GetGraphDOT exportState =
     ''digraph '' @ quote ''trip'' @ '' {'' @ [CHR 0x0A] @
     ''  '' @ quote ''alice'' @ '' [label='' @ quote ''Alice'' @ ''];'' @ [CHR 0x0A] @
     ''  '' @ quote ''bob'' @ '' [label='' @ quote ''Bob'' @ ''];'' @ [CHR 0x0A] @
     ''  '' @ quote ''charlie'' @ '' [label='' @ quote ''Charlie'' @ ''];'' @ [CHR 0x0A] @
     ''  '' @ quote ''alice'' @ '' -> '' @ quote ''bob'' @ '' [label='' @ quote ''$123.46'' @ ''];'' @ [CHR 0x0A] @
     ''  '' @ quote ''alice'' @ '' -> '' @ quote ''charlie'' @ '' [label='' @ quote ''$70.00'' @ ''];'' @ [CHR 0x0A] @
     ''  '' @ quote ''bob'' @ '' -> '' @ quote ''alice'' @ '' [label='' @ quote ''$0.02'' @ ''];'' @ [CHR 0x0A] @
     ''}'' @ [CHR 0x0A]"
proof -
  have h: "distinct (map fst (people exportState))" "distinct (map fst (nodes (ggraph exportState)))"
    by (simp_all add: exportState_def)
  have b: "\<forall>a b. - (2 ^ 63) \<le> owed (ggraph exportState) a b \<and>
      owed (ggraph exportState) a b + 500 < 2 ^ 52 * 1000"
    by (simp add: exportState_owed)
  have p: "fst ` set (people exportState) = {''alice'', ''bob'', ''charlie''}"
    by (auto simp: exportState_def)
  have n: "groupName exportState = ''trip''" by (simp add: exportState_def)
  from GetGraphDOT_spec [OF h b] show ?thesis
    unfolding p n using h b exportState_dot by (simp add: exportState_owed)
qed

text \<open>
  Claim C9 as stated covers every group state. For one edge of 9007199254740993000
  micro-cents from bob to alice, the amount rounds to 9007199254740993 cents, which is
  \<open>2^53 + 1\<close> and is not a binary64 number: the label printed is \<open>$90071992547409.92\<close>,
  while rounding half up gives \<open>$90071992547409.93\<close>.
\<close>

theorem GetGraphDOT_spec_counterexample:
  "owed (ggraph hugeState) ''bob'' ''alice'' = 9007199254740993000 \<and>
   GetGraphDOT hugeState =
     ''digraph '' @ quote ''trip'' @ '' {'' @ [CHR 0x0A] @
     ''  '' @ quote ''alice'' @ '' [label='' @ quote ''Alice'' @ ''];'' @ [CHR 0x0A] @
     ''  '' @ quote ''bob'' @ '' [label='' @ quote ''Bob'' @ ''];'' @ [CHR 0x0A] @
     ''  '' @ quote ''bob'' @ '' -> '' @ quote ''alice'' @ '' [label='' @
        quote ''$90071992547409.92'' @ ''];'' @ [CHR 0x0A] @
     ''}'' @ [CHR 0x0A] \<and>
   roundHalfUpLabel 9007199254740993000 = ''$90071992547409.93'' \<and>
   ''$90071992547409.92'' \<noteq> ''$90071992547409.93''"
  by (simp add: hugeState_dot label_huge) (simp add: owed_def edgesOf_def hugeState_def)

section \<open>The shares of a percentage split that exceeds the total\<close>

lemma underPercent_sum: "fsum (map snd underPercent) = Finite (6553599 / 65536)"
  by (simp add: underPercent_def fsum_def float_eval)

lemma underPercent_ok: "\<not> percentSumMismatch underPercent"
  by (simp add: percentSumMismatch_def underPercent_sum) (simp add: float_eval)

lemma underPercent_items:
  "percentItems 10000000 underPercent =
     [\<lparr>iname = ''alice'', iraw = Finite (10239996875 / 2048), ibase = 4999998, ifrac = Finite (971 / 2048)\<rparr>,
      \<lparr>iname = ''bob'', iraw = Finite 5000000, ibase = 5000000, ifrac = Finite 0\<rparr>]"
  by (simp add: underPercent_def percentItems_def mkItem_def float_eval)

lemma underPercent_shares:
  "splitByPercent 10000000 underPercent = Inr [''alice'' \<mapsto> 4999999, ''bob'' \<mapsto> 5000001]"
proof -
  let ?items = "percentItems 10000000 underPercent"
  have u: "usedOf ?items = 9999998"
    by (simp add: underPercent_items usedOf_def wrap64_def)
  have s: "sortSlice itemLess ?items = ?items"
    by (simp add: underPercent_items sortSlice_def itemLess_def float_eval)
  have n: "[0..<2] = [0, Suc 0]" by (simp add: upt_rec numeral_2_eq_2)
  have "distribute 10000000 ?items = Inr [''alice'' \<mapsto> 4999999, ''bob'' \<mapsto> 5000001]"
    by (simp add: distribute_def u s wrap64_def)
      (simp add: underPercent_items incr_def wrap64_def Let_def n fun_upd_twist)
  with underPercent_ok show ?thesis by (simp add: splitByPercent_cases)
qed

text \<open>
  Claim C1 does not hold of the code. The percentages 50.0078125 and 50 lie between 0
  and 100, and their sum 100.0078125 passes the tolerance test. The floors of the raw
  shares of the total 10,000,000 are 5,000,781 and 5,000,000; the leftover is -781, the
  loop that hands out the leftover does not run, and the shares returned add up to
  10,000,781. Where the sum is below 100 the same loop makes the shares exact: the
  percentages 49.9999847412109375 and 50 give 4,999,999 and 5,000,001.
\<close>

theorem splitByPercent_overallocation:
  "overPercent = [(''alice'', Finite (6401 / 128)), (''bob'', Finite 50)] \<and>
   (0::real) \<le> 6401 / 128 \<and> (6401 / 128 :: real) \<le> 100 \<and>
   fsum (map snd overPercent) = Finite (12801 / 128) \<and>
   \<not> percentSumMismatch overPercent \<and>
   splitByPercent 10000000 overPercent = Inr [''alice'' \<mapsto> 5000781, ''bob'' \<mapsto> 5000000] \<and>
   sum_shares [''alice'' \<mapsto> 5000781, ''bob'' \<mapsto> 5000000] = 10000781 \<and>
   \<not> percentSumMismatch underPercent \<and>
   splitByPercent 10000000 underPercent = Inr [''alice'' \<mapsto> 4999999, ''bob'' \<mapsto> 5000001] \<and>
   sum_shares [''alice'' \<mapsto> 4999999, ''bob'' \<mapsto> 5000001] = 10000000"
  using overPercent_ok underPercent_ok
  by (simp add: overPercent_sum overPercent_shares underPercent_shares sum_shares_def)
    (simp add: overPercent_def)

section \<open>The keys of the settlements\<close>

lemma payGroup_state: "payGroup unicodeLower = Inr payState"
  by (simp add: payGroup_def payState_def equalExpense_def bindE_def NewGroup_def AddPerson_def
      addNode_def newGraph_def name_simps AddExpense_def validateSplitMethod_def
      normalizeSplitMap_def allMembers_def computeShares_def splitEqual_def Let_def
      signed_divide_int_def signed_modulo_int_def wrap64_def checkSync_def addEdge_def)

lemma overwriteGroup_state: "overwriteGroup unicodeLower = Inr overwriteState"
  by (simp add: overwriteGroup_def overwriteState_def equalExpense_def bindE_def NewGroup_def
      AddPerson_def addNode_def newGraph_def name_simps AddExpense_def validateSplitMethod_def
      normalizeSplitMap_def allMembers_def computeShares_def splitEqual_def Let_def
      signed_divide_int_def signed_modulo_int_def wrap64_def checkSync_def addEdge_def)

lemma toDollars_values:
  "toDollars 1000000 = Finite 10" "toDollars 2000000 = Finite 20" "toDollars 0 = Finite 0"
  "toDollars (- 1000000) = Finite 0" "toDollars (- 2000000) = Finite 0"
  by (simp_all add: toDollars_def Let_def float_eval)

lemmas net_eval = netMicroCents_def sumTo_def edgesOf_def wrap64_def

lemma payState_entries:
  "settlementEntries payState =
     [((''x'', ''y to pay z''), Finite 10), ((''x'', ''z to pay x''), Finite 10),
      ((''y'', ''y to pay z''), Finite 10), ((''y'', ''z to pay x''), Finite 10)]"
  by (simp add: settlementEntries_def Let_def getMoneyTobePaid_toDollars payState_def net_eval
      toDollars_values fgt_def)

lemma payState_names:
  "displayName payState ''x'' = ''x''" "displayName payState ''y'' = ''y''"
  "displayName payState ''y to pay z'' = ''y to pay z''"
  "displayName payState ''z to pay x'' = ''z to pay x''"
  by (simp_all add: displayName_def payState_def)

lemma payState_details:
  "GetExpenseDetails payState =
     [(''x to pay y to pay z'', Finite 10), (''x to pay z to pay x'', Finite 10),
      (''y to pay y to pay z'', Finite 10), (''y to pay z to pay x'', Finite 10)]"
  by (simp add: GetExpenseDetails_def payState_entries settlementKey_def payState_names)

lemma overwriteState_entries:
  "settlementEntries overwriteState =
     [((''x'', ''y to pay z''), Finite 10), ((''x'', ''z''), Finite 20),
      ((''y to pay z'', ''z''), Finite 10),
      ((''x to pay y'', ''y to pay z''), Finite 10), ((''x to pay y'', ''z''), Finite 20)]"
  by (simp add: settlementEntries_def Let_def getMoneyTobePaid_toDollars overwriteState_def net_eval
      toDollars_values fgt_def)

lemma overwriteState_names:
  "displayName overwriteState ''x'' = ''x''" "displayName overwriteState ''z'' = ''z''"
  "displayName overwriteState ''y to pay z'' = ''y to pay z''"
  "displayName overwriteState ''x to pay y'' = ''x to pay y''"
  by (simp_all add: displayName_def overwriteState_def)

lemma overwriteState_details:
  "GetExpenseDetails overwriteState =
     [(''x to pay y to pay z'', Finite 20), (''x to pay z'', Finite 20),
      (''y to pay z to pay z'', Finite 10), (''x to pay y to pay y to pay z'', Finite 10)]"
  by (simp add: GetExpenseDetails_def overwriteState_entries settlementKey_def overwriteState_names)

lemma payState_nets:
  "netMicroCents payState ''x'' ''y to pay z'' = 1000000"
  "netMicroCents payState ''y to pay z'' ''x'' = - 1000000"
  by (simp_all add: payState_def net_eval)

lemma overwriteState_nets:
  "netMicroCents overwriteState ''x'' ''y to pay z'' = 1000000"
  "netMicroCents overwriteState ''x to pay y'' ''z'' = 2000000"
  by (simp_all add: overwriteState_def net_eval)

text \<open>
  Claim C7 does not hold of the code. The key of an entry is the text
  \<open>from to pay to\<close> of the two display names, and a member name may itself contain
  \<open>to pay\<close>. In the group with the members \<open>x\<close>, \<open>y to pay z\<close>, \<open>y\<close> and \<open>z to pay x\<close>,
  after \<open>y to pay z\<close> and \<open>z to pay x\<close> have each paid 4,000,000 micro-cents split
  equally, \<open>x\<close> owes \<open>y to pay z\<close> 1,000,000 micro-cents and the net balance in the other
  direction is -1,000,000. The map returned holds the key of the pair
  \<open>(x, y to pay z)\<close> and also the key of the pair \<open>(y to pay z, x)\<close>, both with the
  amount 10 dollars: the second is written for the pair \<open>(y, z to pay x)\<close>, which has the
  same key.
\<close>

theorem settlements_report_both_directions:
  "payGroup unicodeLower = Inr payState \<and>
   netMicroCents payState ''x'' ''y to pay z'' = 1000000 \<and>
   netMicroCents payState ''y to pay z'' ''x'' = - 1000000 \<and>
   settlementKey payState ''x'' ''y to pay z'' = ''x to pay y to pay z'' \<and>
   settlementKey payState ''y to pay z'' ''x'' = ''y to pay z to pay x'' \<and>
   settlementKey payState ''y'' ''z to pay x'' = ''y to pay z to pay x'' \<and>
   map_of (GetExpenseDetails payState) ''x to pay y to pay z'' = Some (Finite 10) \<and>
   map_of (GetExpenseDetails payState) ''y to pay z to pay x'' = Some (Finite 10)"
  by (simp add: payGroup_state payState_nets payState_details settlementKey_def payState_names)

text \<open>
  Claim C8 does not hold of the code, for the same reason. In the group above the net
  balance from \<open>y to pay z\<close> to \<open>x\<close> is -1,000,000 micro-cents and the amount computed for
  the pair is zero, yet the key of the pair is in the map returned, with 10 dollars. In
  the group with the members \<open>x\<close>, \<open>y to pay z\<close>, \<open>x to pay y\<close> and \<open>z\<close>, after
  \<open>y to pay z\<close> has paid 4,000,000 and \<open>z\<close> 8,000,000 micro-cents split equally, five
  entries are written under four keys: \<open>x\<close> owes \<open>y to pay z\<close> 10 dollars, and the map
  returned holds 20 dollars under the key of that pair, the amount that \<open>x to pay y\<close>
  owes \<open>z\<close>.
\<close>

theorem settlements_key_collision:
  "payGroup unicodeLower = Inr payState \<and>
   netMicroCents payState ''y to pay z'' ''x'' = - 1000000 \<and>
   getMoneyTobePaid payState ''y to pay z'' ''x'' = Finite 0 \<and>
   map_of (GetExpenseDetails payState) (settlementKey payState ''y to pay z'' ''x'') = Some (Finite 10) \<and>
   overwriteGroup unicodeLower = Inr overwriteState \<and>
   netMicroCents overwriteState ''x'' ''y to pay z'' = 1000000 \<and>
   getMoneyTobePaid overwriteState ''x'' ''y to pay z'' = Finite 10 \<and>
   getMoneyTobePaid overwriteState ''x to pay y'' ''z'' = Finite 20 \<and>
   settlementKey overwriteState ''x'' ''y to pay z'' = settlementKey overwriteState ''x to pay y'' ''z'' \<and>
   map_of (GetExpenseDetails overwriteState) (settlementKey overwriteState ''x'' ''y to pay z'') =
     Some (Finite 20) \<and>
   length (settlementEntries overwriteState) = 5 \<and>
   length (GetExpenseDetails overwriteState) = 4"
  by (simp add: payGroup_state overwriteGroup_state payState_nets overwriteState_nets
      getMoneyTobePaid_toDollars toDollars_values payState_details overwriteState_details
      overwriteState_entries settlementKey_def payState_names overwriteState_names)

end
